theory Spec2Isabelle
  imports Main "HOL-Library.Word"
begin

section \<open>Go strings, runes and UTF-8\<close>

text \<open>
  A Go \<open>string\<close> is a sequence of bytes; text is its UTF-8 reading. The detector
  iterates over strings with \<open>for _, r := range text\<close> and converts with
  \<open>[]rune(text)\<close>, \<open>string(r)\<close> and \<open>string(cleaned)\<close>, so the behaviour of
  package \<open>unicode/utf8\<close> is part of the program's meaning: an ill-formed byte
  decodes to \<open>utf8.RuneError\<close> (U+FFFD) with width 1, and a rune that is not a
  Unicode scalar value is encoded as U+FFFD. Runes are \<open>int32\<close> in Go; every rune the
  program handles comes out of the decoder and lies in \<open>0 .. 0x10FFFF\<close>, so runes
  are natural numbers here.
\<close>

type_synonym byte = "8 word"
type_synonym bytes = "byte list"
type_synonym rune = nat

definition RuneError :: rune where
  "RuneError = 0xFFFD"

text \<open>
  \<open>utf8.first\<close> and \<open>utf8.acceptRanges\<close>: the length of the sequence a leading
  byte announces (0 for a byte that cannot lead, 1 for ASCII) and the range accepted
  for the second byte.
\<close>

definition firstSize :: "nat \<Rightarrow> nat" where
  "firstSize b0 =
    (if b0 < 0x80 then 1 else if b0 < 0xC2 then 0 else if b0 < 0xE0 then 2
     else if b0 < 0xF0 then 3 else if b0 < 0xF5 then 4 else 0)"

definition acceptLo :: "nat \<Rightarrow> nat" where
  "acceptLo b0 = (if b0 = 0xE0 then 0xA0 else if b0 = 0xF0 then 0x90 else 0x80)"

definition acceptHi :: "nat \<Rightarrow> nat" where
  "acceptHi b0 = (if b0 = 0xED then 0x9F else if b0 = 0xF4 then 0x8F else 0xBF)"

text \<open>
  \<open>utf8.DecodeRuneInString\<close>: the first rune of \<open>s\<close> and its width in bytes.
  The masks and shifts of the Go source are written as \<open>mod\<close> and multiplication
  (\<open>s0 & 0x1F\<close> is \<open>s0 mod 32\<close>, \<open>x << 6\<close> is \<open>x * 64\<close>, and the bit fields
  joined by \<open>|\<close> do not overlap).
\<close>

definition DecodeRuneInString :: "bytes \<Rightarrow> rune \<times> nat" where
  "DecodeRuneInString s =
    (if length s < 1 then (RuneError, 0)
     else let s0 = unat (s ! 0); sz = firstSize s0 in
       if sz = 1 then (s0, 1)
       else if sz = 0 then (RuneError, 1)
       else if length s < sz then (RuneError, 1)
       else let s1 = unat (s ! 1) in
         if s1 < acceptLo s0 \<or> acceptHi s0 < s1 then (RuneError, 1)
         else if sz \<le> 2 then ((s0 mod 32) * 64 + s1 mod 64, 2)
         else let s2 = unat (s ! 2) in
           if s2 < 0x80 \<or> 0xBF < s2 then (RuneError, 1)
           else if sz \<le> 3 then ((s0 mod 16) * 4096 + (s1 mod 64) * 64 + s2 mod 64, 3)
           else let s3 = unat (s ! 3) in
             if s3 < 0x80 \<or> 0xBF < s3 then (RuneError, 1)
             else ((s0 mod 8) * 262144 + (s1 mod 64) * 4096 + (s2 mod 64) * 64
                     + s3 mod 64, 4))"

text \<open>
  \<open>utf8.AppendRune\<close>, which is \<open>string(r)\<close> for a rune \<open>r\<close>: surrogates and values
  above \<open>utf8.MaxRune\<close> are written as U+FFFD.
\<close>

definition EncodeRune :: "rune \<Rightarrow> bytes" where
  "EncodeRune r =
    (if r \<le> 0x7F then [of_nat r]
     else if r \<le> 0x7FF then [of_nat (0xC0 + r div 64), of_nat (0x80 + r mod 64)]
     else if 0x10FFFF < r \<or> (0xD800 \<le> r \<and> r \<le> 0xDFFF) then [0xEF, 0xBF, 0xBD]
     else if r \<le> 0xFFFF then
       [of_nat (0xE0 + r div 4096), of_nat (0x80 + (r div 64) mod 64),
        of_nat (0x80 + r mod 64)]
     else
       [of_nat (0xF0 + r div 262144), of_nat (0x80 + (r div 4096) mod 64),
        of_nat (0x80 + (r div 64) mod 64), of_nat (0x80 + r mod 64)])"

text \<open>
  The decoding loop behind \<open>range\<close>, \<open>[]rune(s)\<close> and the regexp engine: the runes
  of \<open>s\<close>, each with the bytes it was read from. The decoder consumes at least one
  byte of a non-empty string, so the rest after the first unit is
  \<open>drop (width - 1)\<close> of the tail.
\<close>

fun decodeUnits :: "bytes \<Rightarrow> (rune \<times> bytes) list" where
  "decodeUnits [] = []"
| "decodeUnits (c # s) =
     (fst (DecodeRuneInString (c # s)), take (snd (DecodeRuneInString (c # s))) (c # s))
       # decodeUnits (drop (snd (DecodeRuneInString (c # s)) - 1) s)"

definition runes :: "bytes \<Rightarrow> rune list" where
  "runes s = map fst (decodeUnits s)"

definition StringOfRunes :: "rune list \<Rightarrow> bytes" where
  "StringOfRunes rs = concat (map EncodeRune rs)"

text \<open>\<open>utf8.ValidString\<close>: no unit of the string is a decoding error.\<close>

definition ValidString :: "bytes \<Rightarrow> bool" where
  "ValidString s = list_all (\<lambda>u. \<not> (fst u = RuneError \<and> length (snd u) = 1)) (decodeUnits s)"

definition validRune :: "rune \<Rightarrow> bool" where
  "validRune r \<longleftrightarrow> r \<le> 0x10FFFF \<and> \<not> (0xD800 \<le> r \<and> r \<le> 0xDFFF)"

section \<open>The emoji pattern and package regexp\<close>

text \<open>
  \<open>emojiPattern\<close> in \<open>NewDetector\<close> is an alternation of twenty character classes,
  each one closed range of code points. A compiled pattern of this shape is the list
  of its ranges. It matches exactly one rune at a time, so the leftmost successive
  non-overlapping matches that \<open>FindAllString\<close> returns are the units of the text
  whose rune lies in a range, \<open>ReplaceAllString\<close> with the empty replacement copies
  the bytes of all other units unchanged, and the unanchored \<open>MatchString\<close> asks
  whether some unit matches. As in package regexp, a byte that is not valid UTF-8
  is read as U+FFFD of width 1.
\<close>

type_synonym regexp = "(rune \<times> rune) list"

definition emojiPattern :: regexp where
  "emojiPattern =
    [(0x1F600, 0x1F64F), (0x1F300, 0x1F5FF), (0x1F680, 0x1F6FF), (0x1F1E0, 0x1F1FF),
     (0x2600, 0x26FF), (0x2700, 0x27BF), (0x1F900, 0x1F9FF), (0x1F018, 0x1F0FF),
     (0x1F90A, 0x1F93A), (0x1F940, 0x1F94C), (0x1F947, 0x1F978), (0x1F980, 0x1F991),
     (0x1F993, 0x1F9A2), (0x1F9A5, 0x1F9AA), (0x1F9AE, 0x1F9CA), (0x1F9CD, 0x1F9FF),
     (0x1FA70, 0x1FA73), (0x1FA78, 0x1FA7A), (0x1FA80, 0x1FA82), (0x1FA90, 0x1FA95)]"

definition matchRune :: "regexp \<Rightarrow> rune \<Rightarrow> bool" where
  "matchRune re r = list_ex (\<lambda>cls. fst cls \<le> r \<and> r \<le> snd cls) re"

definition FindAllString :: "regexp \<Rightarrow> bytes \<Rightarrow> bytes list" where
  "FindAllString re text = map snd (filter (\<lambda>u. matchRune re (fst u)) (decodeUnits text))"

definition ReplaceAllString :: "regexp \<Rightarrow> bytes \<Rightarrow> bytes" where
  "ReplaceAllString re text =
     concat (map snd (filter (\<lambda>u. \<not> matchRune re (fst u)) (decodeUnits text)))"

definition MatchString :: "regexp \<Rightarrow> bytes \<Rightarrow> bool" where
  "MatchString re s = list_ex (\<lambda>u. matchRune re (fst u)) (decodeUnits s)"

section \<open>The detector (pkg/emoji/detector.go)\<close>

text \<open>
  \<open>allowedEmojis\<close> is a \<open>map[string]bool\<close> in which only \<open>true\<close> is ever stored.
  It is kept as the list of its keys: \<open>m[k] = true\<close> is \<open>mapSet\<close>, the lookup
  \<open>m[k]\<close> is membership and \<open>len(m)\<close> is the length of the list.
\<close>

record Detector =
  emojiRegex :: regexp
  allowedEmojis :: "bytes list"

definition mapSet :: "bytes list \<Rightarrow> bytes \<Rightarrow> bytes list" where
  "mapSet m k = (if k \<in> set m then m else m @ [k])"

definition NewDetector :: Detector where
  "NewDetector = \<lparr>emojiRegex = emojiPattern, allowedEmojis = []\<rparr>"

definition NewDetectorWithAllowed :: "bytes list \<Rightarrow> Detector" where
  "NewDetectorWithAllowed allowed =
     NewDetector\<lparr>allowedEmojis := fold (\<lambda>emoji m. mapSet m emoji) allowed []\<rparr>"

definition isEmoji :: "rune \<Rightarrow> bool" where
  "isEmoji r =
    (if r \<ge> 0x1F600 \<and> r \<le> 0x1F64F then True
     else if r \<ge> 0x1F300 \<and> r \<le> 0x1F5FF then True
     else if r \<ge> 0x1F680 \<and> r \<le> 0x1F6FF then True
     else if r \<ge> 0x1F1E0 \<and> r \<le> 0x1F1FF then True
     else if r \<ge> 0x2600 \<and> r \<le> 0x26FF then True
     else if r \<ge> 0x2700 \<and> r \<le> 0x27BF then True
     else if r \<ge> 0x1F900 \<and> r \<le> 0x1F9FF then True
     else False)"

text \<open>
  The body shared by the two loops of \<open>FindEmojis\<close>: skip an allowed emoji, append
  one not seen before. The state is the pair of the slice \<open>emojis\<close> and the keys
  of the map \<open>seen\<close>.
\<close>

definition noteEmoji :: "Detector \<Rightarrow> bytes \<Rightarrow> bytes list \<times> bytes list \<Rightarrow> bytes list \<times> bytes list" where
  "noteEmoji d emoji st =
    (if emoji \<in> set (allowedEmojis d) then st
     else if emoji \<notin> set (snd st) then (fst st @ [emoji], mapSet (snd st) emoji)
     else st)"

definition FindEmojis :: "Detector \<Rightarrow> bytes \<Rightarrow> bytes list" where
  "FindEmojis d text =
    (let matches = FindAllString (emojiRegex d) text;
         st1 = fold (noteEmoji d) matches ([], []);
         st2 = fold (\<lambda>r st. if isEmoji r then noteEmoji d (EncodeRune r) st else st)
                 (runes text) st1
     in fst st2)"

text \<open>The branch of \<open>RemoveEmojis\<close> taken when \<open>len(d.allowedEmojis) > 0\<close>.\<close>

definition removePerRune :: "Detector \<Rightarrow> bytes \<Rightarrow> bytes" where
  "removePerRune d text =
    StringOfRunes
      (fold (\<lambda>r cleaned.
          let emoji = EncodeRune r in
          if isEmoji r \<or> MatchString (emojiRegex d) emoji then
            (if emoji \<in> set (allowedEmojis d) then cleaned @ [r] else cleaned)
          else cleaned @ [r])
        (runes text) [])"

text \<open>The branch taken otherwise (\<open>// No allowed emojis, use the faster method\<close>).\<close>

definition removeByPattern :: "Detector \<Rightarrow> bytes \<Rightarrow> bytes" where
  "removeByPattern d text =
    (let result = ReplaceAllString (emojiRegex d) text in
     StringOfRunes
       (fold (\<lambda>r cleaned. if \<not> isEmoji r then cleaned @ [r] else cleaned) (runes result) []))"

definition RemoveEmojis :: "Detector \<Rightarrow> bytes \<Rightarrow> bytes" where
  "RemoveEmojis d text =
    (if length (allowedEmojis d) > 0 then removePerRune d text else removeByPattern d text)"

section \<open>Strings and paths (packages strings and path/filepath, Unix)\<close>

text \<open>
  Paths are Go strings compared and searched byte by byte; they are \<open>string\<close>s here.
  The separator is \<open>/\<close>.
\<close>

definition HasPrefix :: "string \<Rightarrow> string \<Rightarrow> bool" where
  "HasPrefix s prefix \<longleftrightarrow> length s \<ge> length prefix \<and> take (length prefix) s = prefix"

definition HasSuffix :: "string \<Rightarrow> string \<Rightarrow> bool" where
  "HasSuffix s suffix \<longleftrightarrow>
     length s \<ge> length suffix \<and> drop (length s - length suffix) s = suffix"

fun Contains :: "string \<Rightarrow> string \<Rightarrow> bool" where
  "Contains [] substr = (substr = [])"
| "Contains (c # s) substr = (HasPrefix (c # s) substr \<or> Contains s substr)"

text \<open>\<open>strings.Split(s, "/")\<close>: the pieces between separators, one more than there are separators.\<close>

fun Split :: "string \<Rightarrow> string list" where
  "Split [] = [[]]"
| "Split (c # s) =
     (if c = CHR ''/'' then [] # Split s
      else (case Split s of [] \<Rightarrow> [[c]] | p # ps \<Rightarrow> (c # p) # ps))"

fun joinSep :: "string list \<Rightarrow> string" where
  "joinSep [] = []"
| "joinSep [e] = e"
| "joinSep (e # es) = e @ ''/'' @ joinSep es"

definition IsAbs :: "string \<Rightarrow> bool" where
  "IsAbs path = HasPrefix path ''/''"

text \<open>
  \<open>filepath.Clean\<close>, element by element: empty elements and \<open>.\<close> are dropped, \<open>..\<close>
  removes the element before it when there is one that is not itself \<open>..\<close>, is kept
  at the front of a relative path, and is dropped at the root; the empty result is \<open>.\<close>.
\<close>

definition cleanStep :: "bool \<Rightarrow> string \<Rightarrow> string list \<Rightarrow> string list" where
  "cleanStep rooted e out =
    (if e = [] \<or> e = ''.'' then out
     else if e = ''..'' then
       (if out \<noteq> [] \<and> last out \<noteq> ''..'' then butlast out
        else if \<not> rooted then out @ [''..'']
        else out)
     else out @ [e])"

definition Clean :: "string \<Rightarrow> string" where
  "Clean path =
    (if path = [] then ''.''
     else let rooted = (hd path = CHR ''/'');
              out = fold (cleanStep rooted) (Split path) []
          in if rooted then ''/'' @ joinSep out
             else if out = [] then ''.''
             else joinSep out)"

text \<open>\<open>filepath.Join\<close> of two elements, as \<open>filepath.WalkDir\<close> calls it.\<close>

definition Join :: "string \<Rightarrow> string \<Rightarrow> string" where
  "Join a b =
    (let elems = filter (\<lambda>e. e \<noteq> []) [a, b]
     in if elems = [] then [] else Clean (joinSep elems))"

definition Base :: "string \<Rightarrow> string" where
  "Base path0 =
    (if path0 = [] then ''.''
     else let path = rev (dropWhile (\<lambda>c. c = CHR ''/'') (rev path0));
              path = rev (takeWhile (\<lambda>c. c \<noteq> CHR ''/'') (rev path))
          in if path = [] then ''/'' else path)"

text \<open>\<open>filepath.Ext\<close>: the suffix from the last dot of the last element, or empty.\<close>

fun extScan :: "string \<Rightarrow> string \<Rightarrow> string" where
  "extScan [] acc = []"
| "extScan (c # revPrefix) acc =
     (if c = CHR ''/'' then []
      else if c = CHR ''.'' then c # acc
      else extScan revPrefix (c # acc))"

definition Ext :: "string \<Rightarrow> string" where
  "Ext path = extScan (rev path) []"

text \<open>
  \<open>filepath.Match\<close> is code of the Go library, not of this repository. The processor
  is verified for every matcher: a function from pattern and name to \<open>Some matched\<close>,
  or \<open>None\<close> for \<open>ErrBadPattern\<close>. On a pattern without metacharacters
  \<open>filepath.Match\<close> compares the two strings, which is \<open>literalMatch\<close>; the closed
  examples below use patterns of that kind only.
\<close>

type_synonym matcher = "string \<Rightarrow> string \<Rightarrow> bool option"

definition literalMatch :: matcher where
  "literalMatch pattern name = Some (name = pattern)"

section \<open>The operating system\<close>

text \<open>
  The file system is a map from paths to files. Which calls the system refuses is
  part of the state, so that every error return of the source is a branch of the
  model. A refused call changes nothing. Every call that asks for a change is
  logged in \<open>calls\<close>, whether it succeeds or not.
\<close>

record osFile =
  contents :: bytes
  perm :: nat
  isRegular :: bool

datatype syscall = SysWriteFile string bytes nat | SysChmod string nat

record os =
  files :: "string \<rightharpoonup> osFile"
  readFails :: "string \<Rightarrow> bool"
  writeFails :: "string \<Rightarrow> bool"
  chmodFails :: "string \<Rightarrow> bool"
  calls :: "syscall list"

datatype error = OSError string | Wrapped string error

text \<open>The mode \<open>0600\<close> (octal): read and write for the owner, nothing for others.\<close>

definition mode0600 :: nat where
  "mode0600 = 6 * 8 * 8"

definition os_ReadFile :: "os \<Rightarrow> string \<Rightarrow> error + bytes" where
  "os_ReadFile st name =
    (case files st name of
       None \<Rightarrow> Inl (OSError name)
     | Some f \<Rightarrow> if readFails st name then Inl (OSError name) else Inr (contents f))"

text \<open>
  \<open>os.WriteFile\<close> truncates an existing file and keeps its permission bits; the
  mode argument is used only when the file is created.
\<close>

definition os_WriteFile :: "os \<Rightarrow> string \<Rightarrow> bytes \<Rightarrow> nat \<Rightarrow> error option \<times> os" where
  "os_WriteFile st name data mode =
    (let st1 = st\<lparr>calls := calls st @ [SysWriteFile name data mode]\<rparr> in
     if writeFails st name then (Some (OSError name), st1)
     else (None, st1\<lparr>files := (files st)(name \<mapsto>
             (case files st name of
                None \<Rightarrow> \<lparr>contents = data, perm = mode, isRegular = True\<rparr>
              | Some f \<Rightarrow> f\<lparr>contents := data\<rparr>))\<rparr>))"

definition os_Chmod :: "os \<Rightarrow> string \<Rightarrow> nat \<Rightarrow> error option \<times> os" where
  "os_Chmod st name mode =
    (let st1 = st\<lparr>calls := calls st @ [SysChmod name mode]\<rparr> in
     case files st name of
       None \<Rightarrow> (Some (OSError name), st1)
     | Some f \<Rightarrow>
         if chmodFails st name then (Some (OSError name), st1)
         else (None, st1\<lparr>files := (files st)(name \<mapsto> f\<lparr>perm := mode\<rparr>)\<rparr>))"

definition os_Stat :: "os \<Rightarrow> string \<Rightarrow> osFile option" where
  "os_Stat st name = files st name"

section \<open>The file processor (pkg/emoji/detector.go, from line 130)\<close>

record FileProcessor =
  Detector :: Detector
  excludes :: "string list"

record ProcessResult =
  FilePath :: string
  EmojisFound :: "bytes list"
  OriginalSize :: int
  NewSize :: int
  Modified :: bool

definition NewFileProcessor :: FileProcessor where
  "NewFileProcessor = \<lparr>Detector = NewDetector, excludes = []\<rparr>"

definition NewFileProcessorWithExcludes :: "string list \<Rightarrow> FileProcessor" where
  "NewFileProcessorWithExcludes excl = \<lparr>Detector = NewDetector, excludes = excl\<rparr>"

definition NewFileProcessorWithExcludesAndAllowed :: "string list \<Rightarrow> bytes list \<Rightarrow> FileProcessor" where
  "NewFileProcessorWithExcludesAndAllowed excl allowed =
     \<lparr>Detector = NewDetectorWithAllowed allowed, excludes = excl\<rparr>"

definition matchExclude :: "matcher \<Rightarrow> string \<Rightarrow> string \<Rightarrow> bool" where
  "matchExclude Match path0 pattern0 =
    (let path = Clean path0; pattern = Clean pattern0 in
     if path = pattern then True
     else if IsAbs pattern then
       (if HasPrefix path (pattern @ ''/'') \<or> path = pattern then True else False)
     else if list_ex (\<lambda>part. part = pattern) (Split path) then True
     else if HasSuffix path (''/'' @ pattern) \<or> Base path = pattern then True
     else if Contains pattern ''*'' \<or> Contains pattern ''?'' then
       (if Match pattern path = Some True then True
        else if Match pattern (Base path) = Some True then True
        else False)
     else False)"

definition isExcluded :: "matcher \<Rightarrow> FileProcessor \<Rightarrow> string \<Rightarrow> bool" where
  "isExcluded Match fp path = list_ex (\<lambda>exclude. matchExclude Match path exclude) (excludes fp)"

definition skipExtensions :: "string list" where
  "skipExtensions =
    [''.exe'', ''.bin'', ''.so'', ''.dll'', ''.jpg'', ''.jpeg'', ''.png'', ''.gif'', ''.bmp'',
     ''.mp3'', ''.mp4'', ''.avi'', ''.mov'', ''.zip'', ''.tar'', ''.gz'', ''.7z'', ''.pdf'',
     ''.sock'']"

definition shouldSkipFile :: "os \<Rightarrow> string \<Rightarrow> bool" where
  "shouldSkipFile st path =
    (case os_Stat st path of
       None \<Rightarrow> True
     | Some info \<Rightarrow> if \<not> isRegular info then True else Ext path \<in> set skipExtensions)"

definition ProcessFile ::
  "FileProcessor \<Rightarrow> string \<Rightarrow> bool \<Rightarrow> os \<Rightarrow> (ProcessResult \<times> error option) \<times> os" where
  "ProcessFile fp filePath dryRun st =
    (case os_ReadFile st filePath of
       Inl err \<Rightarrow>
         ((\<lparr>FilePath = filePath, EmojisFound = [], OriginalSize = 0, NewSize = 0,
            Modified = False\<rparr>, Some (Wrapped ''failed to read file'' err)), st)
     | Inr content \<Rightarrow>
         let emojis = FindEmojis (Detector fp) content;
             result = \<lparr>FilePath = filePath, EmojisFound = emojis,
                       OriginalSize = int (length content), NewSize = 0, Modified = False\<rparr>
         in if length emojis = 0 then ((result, None), st)
            else
              let cleanedText = RemoveEmojis (Detector fp) content;
                  result = result\<lparr>NewSize := int (length cleanedText), Modified := True\<rparr>
              in if \<not> dryRun then
                   (case os_WriteFile st filePath cleanedText mode0600 of
                      (Some err, st1) \<Rightarrow>
                        ((result, Some (Wrapped ''failed to write cleaned file'' err)), st1)
                    | (None, st1) \<Rightarrow>
                        (case os_Chmod st1 filePath mode0600 of
                           (Some err, st2) \<Rightarrow>
                             ((result, Some (Wrapped ''failed to set file permissions'' err)), st2)
                         | (None, st2) \<Rightarrow> ((result, None), st2)))
                 else ((result, None), st))"

text \<open>
  The directory tree as \<open>filepath.WalkDir\<close> sees it: what \<open>os.ReadDir\<close> lists, in
  its order. A directory carries whether reading it fails.
\<close>

datatype dirEntry = FileEntry string | DirEntry string bool "dirEntry list"

fun entryName :: "dirEntry \<Rightarrow> string" where
  "entryName (FileEntry name) = name"
| "entryName (DirEntry name readDirFails children) = name"

datatype walkSignal = Continue | SkipDir | Fail error

type_synonym walkAcc = "ProcessResult list \<times> os"

text \<open>The function literal passed to \<open>filepath.WalkDir\<close> in \<open>ProcessDirectory\<close>.\<close>

definition walkFn ::
  "matcher \<Rightarrow> FileProcessor \<Rightarrow> bool \<Rightarrow> string \<Rightarrow> bool \<Rightarrow> error option \<Rightarrow> walkAcc
     \<Rightarrow> walkSignal \<times> walkAcc" where
  "walkFn Match fp dryRun path isDir err acc =
    (case err of
       Some e \<Rightarrow> (Fail e, acc)
     | None \<Rightarrow>
        if isExcluded Match fp path then (if isDir then (SkipDir, acc) else (Continue, acc))
        else if isDir then (Continue, acc)
        else if Contains path ''/.git/'' \<or> Contains path ''/.svn/'' \<or> Contains path ''/.hg/''
          then (Continue, acc)
        else if shouldSkipFile (snd acc) path then (Continue, acc)
        else (case ProcessFile fp path dryRun (snd acc) of
                ((result, Some e), st1) \<Rightarrow>
                  (Fail (Wrapped (''failed to process '' @ path) e), (fst acc, st1))
              | ((result, None), st1) \<Rightarrow>
                  (Continue,
                   (if length (EmojisFound result) > 0 then fst acc @ [result] else fst acc,
                    st1))))"

text \<open>
  \<open>filepath.walkDir\<close>: the callback on the entry, then on a directory its children
  under the joined paths. \<open>SkipDir\<close> from a directory skips it; from a child it
  ends the loop over its siblings.
\<close>

fun walkDir ::
  "(string \<Rightarrow> bool \<Rightarrow> error option \<Rightarrow> walkAcc \<Rightarrow> walkSignal \<times> walkAcc)
     \<Rightarrow> string \<Rightarrow> dirEntry \<Rightarrow> walkAcc \<Rightarrow> walkSignal \<times> walkAcc"
and walkDirs ::
  "(string \<Rightarrow> bool \<Rightarrow> error option \<Rightarrow> walkAcc \<Rightarrow> walkSignal \<times> walkAcc)
     \<Rightarrow> string \<Rightarrow> dirEntry list \<Rightarrow> walkAcc \<Rightarrow> walkSignal \<times> walkAcc" where
  "walkDir fn path (FileEntry name) acc = fn path False None acc"
| "walkDir fn path (DirEntry name readDirFails children) acc =
    (case fn path True None acc of
       (Fail e, acc1) \<Rightarrow> (Fail e, acc1)
     | (SkipDir, acc1) \<Rightarrow> (Continue, acc1)
     | (Continue, acc1) \<Rightarrow>
         if readDirFails then
           (case fn path True (Some (OSError path)) acc1 of
              (Fail e, acc2) \<Rightarrow> (Fail e, acc2)
            | (SkipDir, acc2) \<Rightarrow> (Continue, acc2)
            | (Continue, acc2) \<Rightarrow> walkDirs fn path children acc2)
         else walkDirs fn path children acc1)"
| "walkDirs fn path [] acc = (Continue, acc)"
| "walkDirs fn path (d1 # ds) acc =
    (case walkDir fn (Join path (entryName d1)) d1 acc of
       (Fail e, acc1) \<Rightarrow> (Fail e, acc1)
     | (SkipDir, acc1) \<Rightarrow> (Continue, acc1)
     | (Continue, acc1) \<Rightarrow> walkDirs fn path ds acc1)"

text \<open>
  \<open>filepath.WalkDir\<close>: \<open>root\<close> is passed to the callback as given; \<open>None\<close> for the
  tree means that \<open>os.Lstat(root)\<close> fails. A final \<open>SkipDir\<close> is no error.
\<close>

definition WalkDir ::
  "(string \<Rightarrow> bool \<Rightarrow> error option \<Rightarrow> walkAcc \<Rightarrow> walkSignal \<times> walkAcc)
     \<Rightarrow> string \<Rightarrow> dirEntry option \<Rightarrow> walkAcc \<Rightarrow> error option \<times> walkAcc" where
  "WalkDir fn root tree acc =
    (case (case tree of
             None \<Rightarrow> fn root False (Some (OSError root)) acc
           | Some d \<Rightarrow> walkDir fn root d acc) of
       (Fail e, acc1) \<Rightarrow> (Some e, acc1)
     | (SkipDir, acc1) \<Rightarrow> (None, acc1)
     | (Continue, acc1) \<Rightarrow> (None, acc1))"

definition ProcessDirectory ::
  "matcher \<Rightarrow> FileProcessor \<Rightarrow> string \<Rightarrow> bool \<Rightarrow> dirEntry option \<Rightarrow> os
     \<Rightarrow> (ProcessResult list \<times> error option) \<times> os" where
  "ProcessDirectory Match fp dirPath dryRun tree st =
    (case WalkDir (walkFn Match fp dryRun) dirPath tree ([], st) of
       (err, (results, st1)) \<Rightarrow> ((results, err), st1))"

section \<open>Piped content (internal/cli/commands/destroy.go)\<close>

definition TrimSuffix :: "bytes \<Rightarrow> bytes \<Rightarrow> bytes" where
  "TrimSuffix s suffix =
    (if length s \<ge> length suffix \<and> drop (length s - length suffix) s = suffix
     then take (length s - length suffix) s else s)"

text \<open>
  \<open>processContentFromStdin\<close>, given the lines the scanner yields and whether the
  scanner ends in an error; the second component of the result is what the function
  prints to standard output.
\<close>

definition processContentFromStdin ::
  "FileProcessor \<Rightarrow> bool \<Rightarrow> bytes list \<Rightarrow> bool \<Rightarrow> (ProcessResult list \<times> error option) \<times> bytes" where
  "processContentFromStdin processor dryRun scanned scanFails =
    (let content = concat (map (\<lambda>line. line @ [0x0A]) scanned) in
     if scanFails then
       (([], Some (Wrapped ''error reading from stdin'' (OSError ''<stdin>''))), [])
     else if content = [] then (([], None), [])
     else
       let contentStr = TrimSuffix content [0x0A];
           emojis = FindEmojis (Detector processor) contentStr;
           result = \<lparr>FilePath = ''<stdin>'', EmojisFound = emojis,
                     OriginalSize = int (length contentStr), NewSize = 0,
                     Modified = (length emojis > 0)\<rparr>
       in if length emojis = 0 then (([], None), [])
          else
            let cleanedContent = RemoveEmojis (Detector processor) contentStr;
                result = result\<lparr>NewSize := int (length cleanedContent)\<rparr>
            in (([result], None), if \<not> dryRun then cleanedContent else []))"

section \<open>The notions of the specification\<close>

text \<open>
  A code point \<^emph>\<open>qualifies\<close> when it lies in one of the detector's emoji ranges and its
  one-character string is not in the allow set. The detector has two range tables,
  the one in \<open>isEmoji\<close> and the one in the pattern; a code point in either is in
  an emoji range.
\<close>

definition inEmojiRange :: "rune \<Rightarrow> bool" where
  "inEmojiRange r \<longleftrightarrow> isEmoji r \<or> matchRune emojiPattern r"

definition qualifies :: "Detector \<Rightarrow> rune \<Rightarrow> bool" where
  "qualifies d r \<longleftrightarrow> inEmojiRange r \<and> EncodeRune r \<notin> set (allowedEmojis d)"

text \<open>The distinct elements of a list, ordered by where each occurs first.\<close>

fun firstOccurrences :: "'a list \<Rightarrow> 'a list" where
  "firstOccurrences [] = []"
| "firstOccurrences (x # xs) = x # firstOccurrences (filter (\<lambda>y. y \<noteq> x) xs)"

text \<open>
  The exclusion rule in the words of the specification: equality; or an absolute
  pattern that is the path or an ancestor of it; or a relative pattern that equals a
  segment or the base name of the path, or is a glob that matches the path or its
  base name.
\<close>

definition matchesStated :: "matcher \<Rightarrow> string \<Rightarrow> string \<Rightarrow> bool" where
  "matchesStated Match path pattern \<longleftrightarrow>
     path = pattern
     \<or> (IsAbs pattern \<and> (path = pattern \<or> HasPrefix path (pattern @ ''/'')))
     \<or> (\<not> IsAbs pattern \<and>
          (list_ex (\<lambda>part. part = pattern) (Split path)
           \<or> Base path = pattern
           \<or> ((Contains pattern ''*'' \<or> Contains pattern ''?'')
               \<and> (Match pattern path = Some True \<or> Match pattern (Base path) = Some True))))"

text \<open>The same rule with one more way for a relative pattern: the path ends with a separator and the pattern.\<close>

definition matchesAmended :: "matcher \<Rightarrow> string \<Rightarrow> string \<Rightarrow> bool" where
  "matchesAmended Match path pattern \<longleftrightarrow>
     path = pattern
     \<or> (IsAbs pattern \<and> (path = pattern \<or> HasPrefix path (pattern @ ''/'')))
     \<or> (\<not> IsAbs pattern \<and>
          (list_ex (\<lambda>part. part = pattern) (Split path)
           \<or> HasSuffix path (''/'' @ pattern)
           \<or> Base path = pattern
           \<or> ((Contains pattern ''*'' \<or> Contains pattern ''?'')
               \<and> (Match pattern path = Some True \<or> Match pattern (Base path) = Some True))))"

text \<open>
  The invariant of a \<open>ProcessResult\<close> made from the text \<open>text\<close> by the detector
  \<open>d\<close>: \<open>Modified\<close> is false exactly when no emoji was found, and when one was
  found \<open>NewSize\<close> is the byte length of the cleaned text.
\<close>

definition resultInvariant :: "bytes \<Rightarrow> Detector \<Rightarrow> ProcessResult \<Rightarrow> bool" where
  "resultInvariant text d r \<longleftrightarrow>
     (Modified r = (EmojisFound r \<noteq> []))
     \<and> (EmojisFound r \<noteq> [] \<longrightarrow> NewSize r = int (length (RemoveEmojis d text)))"

text \<open>
  What the test of \<open>ProcessDirectory\<close> for version control directories decides: the
  path of the result has none of \<open>/.git/\<close>, \<open>/.svn/\<close> and \<open>/.hg/\<close> as a substring.
\<close>

definition outsideVCS :: "ProcessResult \<Rightarrow> bool" where
  "outsideVCS r \<longleftrightarrow>
     \<not> Contains (FilePath r) ''/.git/'' \<and> \<not> Contains (FilePath r) ''/.svn/''
     \<and> \<not> Contains (FilePath r) ''/.hg/''"

text \<open>An operating system that refuses no call, for the closed examples.\<close>

definition neverFails :: "string \<Rightarrow> bool" where
  "neverFails name = False"

section \<open>UTF-8: one rune\<close>

text \<open>
  The decoder reads back what the encoder writes for a scalar value, and what the
  decoder accepts is the encoding of the rune it returns. The arithmetic is on the
  base-64 digits of the rune.
\<close>

lemma unat_byte_lt: "unat (c::byte) < 256"
  using unsigned_less [of c, where ?'a = nat] by simp

lemma unat_of_nat_byte: "n < 256 \<Longrightarrow> unat (of_nat n :: byte) = n"
  by (simp add: unat_of_nat)

lemma firstSize_le: "firstSize b \<le> 4"
  by (simp add: firstSize_def)

lemma DecodeRuneInString_Nil: "DecodeRuneInString [] = (RuneError, 0)"
  by (simp add: DecodeRuneInString_def)

lemma DecodeRuneInString_ascii:
  "unat c0 < 0x80 \<Longrightarrow> DecodeRuneInString (c0 # t) = (unat c0, 1)"
  by (simp add: DecodeRuneInString_def firstSize_def)

lemma DecodeRuneInString_bad_lead:
  "0x80 \<le> unat c0 \<Longrightarrow> unat c0 < 0xC2 \<or> 0xF5 \<le> unat c0 \<Longrightarrow>
   DecodeRuneInString (c0 # t) = (RuneError, 1)"
  by (auto simp: DecodeRuneInString_def firstSize_def)

lemma DecodeRuneInString_short:
  "length (c0 # t) < firstSize (unat c0) \<Longrightarrow> DecodeRuneInString (c0 # t) = (RuneError, 1)"
  by (auto simp: DecodeRuneInString_def Let_def)

lemma DecodeRuneInString_two:
  assumes "0xC2 \<le> unat c0" "unat c0 < 0xE0"
  shows "DecodeRuneInString (c0 # c1 # t) =
    (if unat c1 < 0x80 \<or> 0xBF < unat c1 then (RuneError, 1)
     else ((unat c0 mod 32) * 64 + unat c1 mod 64, 2))"
proof -
  have sz: "firstSize (unat c0) = 2" using assms by (simp add: firstSize_def)
  have lo: "acceptLo (unat c0) = 0x80" using assms by (simp add: acceptLo_def)
  have hi: "acceptHi (unat c0) = 0xBF" using assms by (simp add: acceptHi_def)
  show ?thesis by (simp add: DecodeRuneInString_def sz lo hi)
qed

lemma DecodeRuneInString_three:
  assumes "0xE0 \<le> unat c0" "unat c0 < 0xF0"
  shows "DecodeRuneInString (c0 # c1 # c2 # t) =
    (if unat c1 < acceptLo (unat c0) \<or> acceptHi (unat c0) < unat c1 then (RuneError, 1)
     else if unat c2 < 0x80 \<or> 0xBF < unat c2 then (RuneError, 1)
     else ((unat c0 mod 16) * 4096 + (unat c1 mod 64) * 64 + unat c2 mod 64, 3))"
proof -
  have sz: "firstSize (unat c0) = 3" using assms by (simp add: firstSize_def)
  show ?thesis by (simp add: DecodeRuneInString_def sz)
qed

lemma DecodeRuneInString_four:
  assumes "0xF0 \<le> unat c0" "unat c0 < 0xF5"
  shows "DecodeRuneInString (c0 # c1 # c2 # c3 # t) =
    (if unat c1 < acceptLo (unat c0) \<or> acceptHi (unat c0) < unat c1 then (RuneError, 1)
     else if unat c2 < 0x80 \<or> 0xBF < unat c2 then (RuneError, 1)
     else if unat c3 < 0x80 \<or> 0xBF < unat c3 then (RuneError, 1)
     else ((unat c0 mod 8) * 262144 + (unat c1 mod 64) * 4096 + (unat c2 mod 64) * 64
             + unat c3 mod 64, 4))"
proof -
  have sz: "firstSize (unat c0) = 4" using assms by (simp add: firstSize_def)
  show ?thesis by (simp add: DecodeRuneInString_def sz)
qed

lemma DecodeRuneInString_width:
  assumes "s \<noteq> []"
  shows "1 \<le> snd (DecodeRuneInString s) \<and> snd (DecodeRuneInString s) \<le> length s"
proof -
  from assms have len: "Suc 0 \<le> length s" "\<not> length s < Suc 0" "0 < length s"
    by (cases s, simp_all)+
  define sz where "sz = firstSize (unat (s ! 0))"
  have "sz \<le> 4" unfolding sz_def by (rule firstSize_le)
  then have "sz = 0 \<or> sz = 1 \<or> sz = 2 \<or> sz = 3 \<or> sz = 4" by arith
  then show ?thesis
  proof (elim disjE)
    assume "sz = 0" with len show ?thesis
      unfolding DecodeRuneInString_def Let_def sz_def [symmetric] by (simp add: Suc_le_eq)
  next
    assume "sz = 1" with len show ?thesis
      unfolding DecodeRuneInString_def Let_def sz_def [symmetric] by (simp add: Suc_le_eq)
  next
    assume "sz = 2" with len show ?thesis
      unfolding DecodeRuneInString_def Let_def sz_def [symmetric] by (simp add: Suc_le_eq)
  next
    assume "sz = 3" with len show ?thesis
      unfolding DecodeRuneInString_def Let_def sz_def [symmetric] by (simp add: Suc_le_eq)
  next
    assume "sz = 4" with len show ?thesis
      unfolding DecodeRuneInString_def Let_def sz_def [symmetric] by (simp add: Suc_le_eq)
  qed
qed



lemma mod64_add128: "(128 + x mod 64) mod 64 = x mod (64::nat)"
  by (simp add: mod_add_eq [symmetric])

lemma lead2_mod: "q < 32 \<Longrightarrow> (192 + q) mod 32 = (q::nat)"
  by (simp add: mod_add_eq [symmetric])

lemma lead3_mod: "q < 16 \<Longrightarrow> (224 + q) mod 16 = (q::nat)"
  by (simp add: mod_add_eq [symmetric])

lemma lead4_mod: "q < 8 \<Longrightarrow> (240 + q) mod 8 = (q::nat)"
  by (simp add: mod_add_eq [symmetric])

lemma div4096: "(r::nat) div 4096 = r div 64 div 64"
  by (simp add: div_mult2_eq [symmetric])

lemma div262144: "(r::nat) div 262144 = r div 64 div 64 div 64"
  by (simp add: div_mult2_eq [symmetric])

lemma recompose3: "(r div 4096) * 4096 + (r div 64 mod 64) * 64 + r mod 64 = (r::nat)"
proof -
  define q where "q = r div 64"
  define a where "a = q div 64"
  define b where "b = q mod 64"
  define c where "c = r mod 64"
  have e1: "q = a * 64 + b" unfolding a_def b_def by simp
  have e2: "r = q * 64 + c" unfolding q_def c_def by simp
  have "a * 4096 + b * 64 + c = (a * 64 + b) * 64 + c" by simp
  also have "\<dots> = r" using e1 e2 by simp
  finally show ?thesis unfolding div4096 a_def b_def c_def q_def .
qed

lemma recompose4:
  "(r div 262144) * 262144 + (r div 4096 mod 64) * 4096 + (r div 64 mod 64) * 64 + r mod 64
     = (r::nat)"
proof -
  define q where "q = r div 64"
  define p where "p = q div 64"
  define a where "a = p div 64"
  define b where "b = p mod 64"
  define c where "c = q mod 64"
  define d where "d = r mod 64"
  have e0: "p = a * 64 + b" unfolding a_def b_def by simp
  have e1: "q = p * 64 + c" unfolding p_def c_def by simp
  have e2: "r = q * 64 + d" unfolding q_def d_def by simp
  have "a * 262144 + b * 4096 + c * 64 + d = ((a * 64 + b) * 64 + c) * 64 + d" by simp
  also have "\<dots> = r" using e0 e1 e2 by simp
  finally show ?thesis unfolding div262144 div4096 a_def b_def c_def d_def p_def q_def .
qed

lemma div_bounds:
  "(r::nat) \<le> 0x7FF \<Longrightarrow> r div 64 < 32"
  "(r::nat) \<le> 0xFFFF \<Longrightarrow> r div 4096 < 16"
  "(r::nat) \<le> 0x10FFFF \<Longrightarrow> r div 262144 < 8"
  "0x7F < r \<Longrightarrow> 2 \<le> r div 64"
  "0xFFFF < r \<Longrightarrow> 16 \<le> r div 4096"
  "0x7FF < r \<Longrightarrow> 32 \<le> r div 64"
  by (simp_all add: div_less_iff_less_mult less_eq_div_iff_mult_less_eq)

lemma mod64_lt: "x mod 64 < (64::nat)"
  by simp


lemma validRune_RuneError: "validRune RuneError"
  by (simp add: validRune_def RuneError_def)

lemma decode_encode_1:
  assumes "r \<le> 0x7F"
  shows "DecodeRuneInString (EncodeRune r @ t) = (r, length (EncodeRune r))"
proof -
  have u: "unat (of_nat r :: byte) = r" using assms by (simp add: unat_of_nat_byte)
  have "unat (of_nat r :: byte) < 0x80" using assms u by simp
  from DecodeRuneInString_ascii [OF this] show ?thesis
    using assms u by (simp add: EncodeRune_def)
qed

lemma decode_encode_2:
  assumes "0x7F < r" "r \<le> 0x7FF"
  shows "DecodeRuneInString (EncodeRune r @ t) = (r, length (EncodeRune r))"
proof -
  define c0 :: byte where "c0 = of_nat (0xC0 + r div 64)"
  define c1 :: byte where "c1 = of_nat (0x80 + r mod 64)"
  note b = div_bounds(1) [OF assms(2)] div_bounds(4) [OF assms(1)] mod64_lt [of r]
  have u0: "unat c0 = 0xC0 + r div 64" unfolding c0_def using b
    by (intro unat_of_nat_byte) linarith
  have u1: "unat c1 = 0x80 + r mod 64" unfolding c1_def using b
    by (intro unat_of_nat_byte) linarith
  have enc: "EncodeRune r = [c0, c1]" using assms by (simp add: EncodeRune_def c0_def c1_def)
  have r0: "0xC2 \<le> unat c0" "unat c0 < 0xE0" using b unfolding u0 by linarith+
  have r1: "\<not> (unat c1 < 0x80 \<or> 0xBF < unat c1)" using b unfolding u1 by linarith
  have val: "(unat c0 mod 32) * 64 + unat c1 mod 64 = r"
    unfolding u0 u1 using b by (simp add: lead2_mod mod64_add128 [of r, simplified])
  show ?thesis
    unfolding enc using DecodeRuneInString_two [OF r0, of c1 t] r1 val by simp
qed

lemma decode_encode_3:
  assumes "0x7FF < r" "r \<le> 0xFFFF" "\<not> (0xD800 \<le> r \<and> r \<le> 0xDFFF)"
  shows "DecodeRuneInString (EncodeRune r @ t) = (r, length (EncodeRune r))"
proof -
  define q1 where "q1 = r div 64"
  define q2 where "q2 = r div 4096"
  define m1 where "m1 = q1 mod 64"
  define m0 where "m0 = r mod 64"
  define c0 :: byte where "c0 = of_nat (0xE0 + q2)"
  define c1 :: byte where "c1 = of_nat (0x80 + m1)"
  define c2 :: byte where "c2 = of_nat (0x80 + m0)"
  have q21: "q2 = q1 div 64" unfolding q2_def q1_def by (rule div4096)
  have d1: "q1 = q2 * 64 + m1" unfolding q21 m1_def by simp
  have m: "m1 < 64" "m0 < 64" unfolding m1_def m0_def by simp_all
  have bq2: "q2 < 16" unfolding q2_def using assms(2) by (rule div_bounds(2))
  have bq1: "32 \<le> q1" unfolding q1_def using assms(1) by (rule div_bounds(6))
  have sur: "q2 = 13 \<Longrightarrow> m1 < 32"
  proof -
    assume h: "q2 = 13"
    have "0xD000 \<le> r" using h unfolding q2_def
      by (simp add: less_eq_div_iff_mult_less_eq [symmetric])
    moreover have "r div 4096 < 14" using h unfolding q2_def by simp
    then have "r < 0xE000" by (simp add: div_less_iff_less_mult)
    ultimately have "r < 0xD800" using assms by linarith
    then have "q1 < 864" unfolding q1_def by (simp add: div_less_iff_less_mult)
    with d1 h show ?thesis by linarith
  qed
  have u0: "unat c0 = 0xE0 + q2" unfolding c0_def using bq2
    by (intro unat_of_nat_byte) linarith
  have u1: "unat c1 = 0x80 + m1" unfolding c1_def using m
    by (intro unat_of_nat_byte) linarith
  have u2: "unat c2 = 0x80 + m0" unfolding c2_def using m
    by (intro unat_of_nat_byte) linarith
  have enc: "EncodeRune r = [c0, c1, c2]"
    using assms
    by (auto simp: EncodeRune_def c0_def c1_def c2_def q2_def q1_def m1_def m0_def)
  have r0: "0xE0 \<le> unat c0" "unat c0 < 0xF0" using bq2 unfolding u0 by linarith+
  have lo: "acceptLo (unat c0) \<le> unat c1"
  proof (cases "q2 = 0")
    case True
    with d1 bq1 have "32 \<le> m1" by linarith
    then show ?thesis unfolding u0 u1 acceptLo_def using True by simp
  next
    case False
    then show ?thesis unfolding u0 u1 acceptLo_def using bq2 by simp
  qed
  have hi: "unat c1 \<le> acceptHi (unat c0)"
  proof (cases "q2 = 13")
    case True
    from sur [OF this] show ?thesis unfolding u0 u1 acceptHi_def using True by simp
  next
    case False
    then show ?thesis unfolding u0 u1 acceptHi_def using bq2 m by simp
  qed
  have r1: "\<not> (unat c1 < acceptLo (unat c0) \<or> acceptHi (unat c0) < unat c1)"
    using lo hi by linarith
  have r2: "\<not> (unat c2 < 0x80 \<or> 0xBF < unat c2)" using m unfolding u2 by linarith
  have "(unat c0 mod 16) * 4096 + (unat c1 mod 64) * 64 + unat c2 mod 64
          = q2 * 4096 + m1 * 64 + m0"
    unfolding u0 u1 u2 using bq2 m
    by (simp add: lead3_mod mod64_add128 [of q1, folded m1_def] mod64_add128 [of r, folded m0_def])
  also have "\<dots> = r" unfolding q2_def m1_def q1_def m0_def by (rule recompose3)
  finally have val: "(unat c0 mod 16) * 4096 + (unat c1 mod 64) * 64 + unat c2 mod 64 = r" .
  show ?thesis
    unfolding enc using DecodeRuneInString_three [OF r0, of c1 c2 t] r1 r2 val by simp
qed

lemma decode_encode_4:
  assumes "0xFFFF < r" "r \<le> 0x10FFFF"
  shows "DecodeRuneInString (EncodeRune r @ t) = (r, length (EncodeRune r))"
proof -
  define q1 where "q1 = r div 64"
  define q2 where "q2 = r div 4096"
  define q3 where "q3 = r div 262144"
  define m2 where "m2 = q2 mod 64"
  define m1 where "m1 = q1 mod 64"
  define m0 where "m0 = r mod 64"
  define c0 :: byte where "c0 = of_nat (0xF0 + q3)"
  define c1 :: byte where "c1 = of_nat (0x80 + m2)"
  define c2 :: byte where "c2 = of_nat (0x80 + m1)"
  define c3 :: byte where "c3 = of_nat (0x80 + m0)"
  have q32: "q3 = q2 div 64" unfolding q3_def q2_def by (simp add: div262144 div4096)
  have d2: "q2 = q3 * 64 + m2" unfolding q32 m2_def by simp
  have m: "m2 < 64" "m1 < 64" "m0 < 64" unfolding m2_def m1_def m0_def by simp_all
  have bq3: "q3 < 8" unfolding q3_def using assms(2) by (rule div_bounds(3))
  have bq2: "16 \<le> q2" unfolding q2_def using assms(1) by (rule div_bounds(5))
  have bq2': "q2 < 272" unfolding q2_def using assms(2) by (simp add: div_less_iff_less_mult)
  have q3le: "q3 \<le> 4" using d2 bq2' by linarith
  have u0: "unat c0 = 0xF0 + q3" unfolding c0_def using bq3
    by (intro unat_of_nat_byte) linarith
  have u1: "unat c1 = 0x80 + m2" unfolding c1_def using m
    by (intro unat_of_nat_byte) linarith
  have u2: "unat c2 = 0x80 + m1" unfolding c2_def using m
    by (intro unat_of_nat_byte) linarith
  have u3: "unat c3 = 0x80 + m0" unfolding c3_def using m
    by (intro unat_of_nat_byte) linarith
  have enc: "EncodeRune r = [c0, c1, c2, c3]"
    using assms
    by (auto simp: EncodeRune_def c0_def c1_def c2_def c3_def q3_def q2_def q1_def
        m2_def m1_def m0_def)
  have r0: "0xF0 \<le> unat c0" "unat c0 < 0xF5" using q3le unfolding u0 by linarith+
  have lo: "acceptLo (unat c0) \<le> unat c1"
  proof (cases "q3 = 0")
    case True
    with d2 bq2 have "16 \<le> m2" by linarith
    then show ?thesis unfolding u0 u1 acceptLo_def using True by simp
  next
    case False
    then show ?thesis unfolding u0 u1 acceptLo_def using bq3 by simp
  qed
  have hi: "unat c1 \<le> acceptHi (unat c0)"
  proof (cases "q3 = 4")
    case True
    with d2 bq2' have "m2 < 16" by linarith
    then show ?thesis unfolding u0 u1 acceptHi_def using True by simp
  next
    case False
    then show ?thesis unfolding u0 u1 acceptHi_def using bq3 m by simp
  qed
  have r1: "\<not> (unat c1 < acceptLo (unat c0) \<or> acceptHi (unat c0) < unat c1)"
    using lo hi by linarith
  have r2: "\<not> (unat c2 < 0x80 \<or> 0xBF < unat c2)" using m unfolding u2 by linarith
  have r3: "\<not> (unat c3 < 0x80 \<or> 0xBF < unat c3)" using m unfolding u3 by linarith
  have "(unat c0 mod 8) * 262144 + (unat c1 mod 64) * 4096 + (unat c2 mod 64) * 64
          + unat c3 mod 64 = q3 * 262144 + m2 * 4096 + m1 * 64 + m0"
    unfolding u0 u1 u2 u3 using bq3 m
    by (simp add: lead4_mod mod64_add128 [of q2, folded m2_def]
        mod64_add128 [of q1, folded m1_def] mod64_add128 [of r, folded m0_def])
  also have "\<dots> = r" unfolding q3_def q2_def m2_def m1_def q1_def m0_def by (rule recompose4)
  finally have val: "(unat c0 mod 8) * 262144 + (unat c1 mod 64) * 4096
      + (unat c2 mod 64) * 64 + unat c3 mod 64 = r" .
  show ?thesis
    unfolding enc using DecodeRuneInString_four [OF r0, of c1 c2 c3 t] r1 r2 r3 val by simp
qed

lemma decode_encode:
  assumes "validRune r"
  shows "DecodeRuneInString (EncodeRune r @ t) = (r, length (EncodeRune r))"
proof -
  consider "r \<le> 0x7F" | "0x7F < r" "r \<le> 0x7FF" | "0x7FF < r" "r \<le> 0xFFFF" | "0xFFFF < r"
    by linarith
  then show ?thesis
  proof cases
    case 1 then show ?thesis by (rule decode_encode_1)
  next
    case 2 then show ?thesis by (rule decode_encode_2)
  next
    case 3 with assms show ?thesis by (intro decode_encode_3) (simp_all add: validRune_def)
  next
    case 4 with assms show ?thesis by (intro decode_encode_4) (simp_all add: validRune_def)
  qed
qed

lemma EncodeRune_nonempty: "EncodeRune r \<noteq> []"
  by (simp add: EncodeRune_def)



lemma cont_mod: "b < 64 \<Longrightarrow> (128 + b) mod 64 = (b::nat)"
  by (simp add: mod_add_eq [symmetric])

lemma mod64_last: "d < 64 \<Longrightarrow> (x * 64 + d) mod 64 = (d::nat)"
  by simp

lemma div64_last: "d < 64 \<Longrightarrow> (x * 64 + d) div 64 = (x::nat)"
  by simp

lemma sound_two:
  assumes "0xC2 \<le> unat c0" "unat c0 < 0xE0" "\<not> (unat c1 < 0x80 \<or> 0xBF < unat c1)"
    and r: "r = (unat c0 mod 32) * 64 + unat c1 mod 64"
  shows "validRune r \<and> EncodeRune r = [c0, c1]"
proof -
  define a where "a = unat c0 - 192"
  define b where "b = unat c1 - 128"
  have e0: "unat c0 = 192 + a" and e1: "unat c1 = 128 + b"
    using assms unfolding a_def b_def by linarith+
  have ab: "2 \<le> a" "a < 32" "b < 64" using assms unfolding a_def b_def by linarith+
  have req: "r = a * 64 + b" unfolding r e0 e1 using ab by (simp add: lead2_mod cont_mod)
  have rb: "\<not> r \<le> 0x7F" "r \<le> 0x7FF" using ab unfolding req by linarith+
  have dv: "r div 64 = a" "r mod 64 = b" unfolding req using ab by simp_all
  have "EncodeRune r = [of_nat (unat c0), of_nat (unat c1)]"
    using rb by (simp add: EncodeRune_def dv e0 e1)
  moreover have "validRune r" using rb by (simp add: validRune_def)
  ultimately show ?thesis by simp
qed

lemma sound_three:
  assumes "0xE0 \<le> unat c0" "unat c0 < 0xF0"
    "\<not> (unat c1 < acceptLo (unat c0) \<or> acceptHi (unat c0) < unat c1)"
    "\<not> (unat c2 < 0x80 \<or> 0xBF < unat c2)"
    and r: "r = (unat c0 mod 16) * 4096 + (unat c1 mod 64) * 64 + unat c2 mod 64"
  shows "validRune r \<and> EncodeRune r = [c0, c1, c2]"
proof -
  define a where "a = unat c0 - 224"
  define b where "b = unat c1 - 128"
  define c where "c = unat c2 - 128"
  have lo: "0x80 \<le> acceptLo (unat c0)" by (simp add: acceptLo_def)
  have hi: "acceptHi (unat c0) \<le> 0xBF" by (simp add: acceptHi_def)
  have e0: "unat c0 = 224 + a" and e1: "unat c1 = 128 + b" and e2: "unat c2 = 128 + c"
    using assms lo hi unfolding a_def b_def c_def by linarith+
  have ab: "a < 16" "b < 64" "c < 64" using assms lo hi unfolding a_def b_def c_def by linarith+
  have a0: "a = 0 \<Longrightarrow> 32 \<le> b"
    using assms(3) unfolding e0 e1 acceptLo_def by simp
  have a13: "a = 13 \<Longrightarrow> b < 32"
    using assms(3) unfolding e0 e1 acceptHi_def by simp
  have req: "r = a * 4096 + b * 64 + c"
    unfolding r e0 e1 e2 using ab by (simp add: lead3_mod cont_mod)
  have req': "r = (a * 64 + b) * 64 + c" unfolding req by simp
  have lower: "\<not> r \<le> 0x7FF"
  proof (cases "a = 0")
    case True with a0 show ?thesis unfolding req by linarith
  next
    case False then show ?thesis unfolding req by linarith
  qed
  have upper: "r \<le> 0xFFFF" using ab unfolding req by linarith
  have nsur: "\<not> (0xD800 \<le> r \<and> r \<le> 0xDFFF)"
  proof (cases "a = 13")
    case True with a13 ab show ?thesis unfolding req by linarith
  next
    case False
    then have "a < 13 \<or> 13 < a" by linarith
    then show ?thesis using ab unfolding req by linarith
  qed
  have d1: "r div 64 = a * 64 + b" unfolding req' using ab by simp
  have dv0: "r mod 64 = c" by (subst req') (rule mod64_last [OF ab(3)])
  have dv1: "r div 64 mod 64 = b" unfolding d1 using ab by simp
  have dv2: "r div 4096 = a" unfolding div4096 d1 using ab by simp
  note dv = dv0 dv1 dv2
  have "EncodeRune r = [of_nat (unat c0), of_nat (unat c1), of_nat (unat c2)]"
    using lower upper nsur by (auto simp: EncodeRune_def dv e0 e1 e2)
  moreover have "validRune r" using upper nsur by (simp add: validRune_def)
  ultimately show ?thesis by simp
qed

lemma sound_four:
  assumes "0xF0 \<le> unat c0" "unat c0 < 0xF5"
    "\<not> (unat c1 < acceptLo (unat c0) \<or> acceptHi (unat c0) < unat c1)"
    "\<not> (unat c2 < 0x80 \<or> 0xBF < unat c2)"
    "\<not> (unat c3 < 0x80 \<or> 0xBF < unat c3)"
    and r: "r = (unat c0 mod 8) * 262144 + (unat c1 mod 64) * 4096 + (unat c2 mod 64) * 64
                 + unat c3 mod 64"
  shows "validRune r \<and> EncodeRune r = [c0, c1, c2, c3]"
proof -
  define a where "a = unat c0 - 240"
  define b where "b = unat c1 - 128"
  define c where "c = unat c2 - 128"
  define d where "d = unat c3 - 128"
  have lo: "0x80 \<le> acceptLo (unat c0)" by (simp add: acceptLo_def)
  have hi: "acceptHi (unat c0) \<le> 0xBF" by (simp add: acceptHi_def)
  have e0: "unat c0 = 240 + a" and e1: "unat c1 = 128 + b" and e2: "unat c2 = 128 + c"
    and e3: "unat c3 = 128 + d"
    using assms lo hi unfolding a_def b_def c_def d_def by linarith+
  have ab: "a < 5" "b < 64" "c < 64" "d < 64"
    using assms lo hi unfolding a_def b_def c_def d_def by linarith+
  have a0: "a = 0 \<Longrightarrow> 16 \<le> b"
    using assms(3) unfolding e0 e1 acceptLo_def by simp
  have a4: "a = 4 \<Longrightarrow> b < 16"
    using assms(3) unfolding e0 e1 acceptHi_def by simp
  have req: "r = a * 262144 + b * 4096 + c * 64 + d"
    unfolding r e0 e1 e2 e3 using ab by (simp add: lead4_mod cont_mod)
  have req': "r = ((a * 64 + b) * 64 + c) * 64 + d" unfolding req by simp
  have lower: "\<not> r \<le> 0xFFFF"
  proof (cases "a = 0")
    case True with a0 show ?thesis unfolding req by linarith
  next
    case False then show ?thesis unfolding req by linarith
  qed
  have upper: "r \<le> 0x10FFFF"
  proof (cases "a = 4")
    case True with a4 ab show ?thesis unfolding req by linarith
  next
    case False
    with ab have "a \<le> 3" by linarith
    then show ?thesis using ab unfolding req by linarith
  qed
  have d1: "r div 64 = (a * 64 + b) * 64 + c" by (subst req') (rule div64_last [OF ab(4)])
  have d2: "r div 64 div 64 = a * 64 + b" unfolding d1 by (rule div64_last [OF ab(3)])
  have dv0: "r mod 64 = d" by (subst req') (rule mod64_last [OF ab(4)])
  have dv1: "r div 64 mod 64 = c" unfolding d1 by (rule mod64_last [OF ab(3)])
  have dv2: "r div 4096 mod 64 = b" unfolding div4096 d2 by (rule mod64_last [OF ab(2)])
  have dv3: "r div 262144 = a" unfolding div262144 d2 by (rule div64_last [OF ab(2)])
  note dv = dv0 dv1 dv2 dv3
  have "EncodeRune r = [of_nat (unat c0), of_nat (unat c1), of_nat (unat c2), of_nat (unat c3)]"
    using lower upper by (simp add: EncodeRune_def dv e0 e1 e2 e3)
  moreover have "validRune r" using lower upper by (simp add: validRune_def)
  ultimately show ?thesis by simp
qed

section \<open>UTF-8: whole strings\<close>

lemma DecodeRuneInString_sound:
  assumes "s \<noteq> []"
  shows "DecodeRuneInString s = (RuneError, 1)
     \<or> (validRune (fst (DecodeRuneInString s))
          \<and> take (snd (DecodeRuneInString s)) s = EncodeRune (fst (DecodeRuneInString s)))"
proof -
  from assms obtain c0 t where s: "s = c0 # t" by (cases s) auto
  define b0 where "b0 = unat c0"
  consider (ascii) "b0 < 0x80" | (bad) "0x80 \<le> b0" "b0 < 0xC2 \<or> 0xF5 \<le> b0"
    | (two) "0xC2 \<le> b0" "b0 < 0xE0" | (three) "0xE0 \<le> b0" "b0 < 0xF0"
    | (four) "0xF0 \<le> b0" "b0 < 0xF5"
    by linarith
  then show ?thesis
  proof cases
    case ascii
    then have d: "DecodeRuneInString (c0 # t) = (unat c0, 1)"
      unfolding b0_def by (rule DecodeRuneInString_ascii)
    have "EncodeRune (unat c0) = [c0]" using ascii by (simp add: EncodeRune_def b0_def)
    moreover have "validRune (unat c0)" using ascii by (simp add: validRune_def b0_def)
    ultimately show ?thesis unfolding s d by simp
  next
    case bad
    then show ?thesis unfolding s b0_def by (simp add: DecodeRuneInString_bad_lead)
  next
    case two
    then have sz: "firstSize (unat c0) = 2" by (simp add: firstSize_def b0_def)
    show ?thesis
    proof (cases t)
      case Nil
      then have "length (c0 # t) < firstSize (unat c0)" by (simp add: sz)
      then show ?thesis unfolding s by (simp add: DecodeRuneInString_short)
    next
      case (Cons c1 t1)
      note d = DecodeRuneInString_two [OF two [unfolded b0_def], of c1 t1]
      show ?thesis
      proof (cases "unat c1 < 0x80 \<or> 0xBF < unat c1")
        case True
        then show ?thesis unfolding s Cons d by simp
      next
        case False
        from sound_two [OF two [unfolded b0_def] False refl]
        show ?thesis unfolding s Cons d using False by simp
      qed
    qed
  next
    case three
    then have sz: "firstSize (unat c0) = 3" by (simp add: firstSize_def b0_def)
    show ?thesis
    proof (cases "length t < 2")
      case True
      then have "length (c0 # t) < firstSize (unat c0)" by (simp add: sz)
      then show ?thesis unfolding s by (simp add: DecodeRuneInString_short)
    next
      case False
      then obtain c1 c2 t2 where t: "t = c1 # c2 # t2"
        by (cases t; cases "tl t") auto
      note d = DecodeRuneInString_three [OF three [unfolded b0_def], of c1 c2 t2]
      show ?thesis
      proof (cases "unat c1 < acceptLo (unat c0) \<or> acceptHi (unat c0) < unat c1")
        case True
        then show ?thesis unfolding s t d by simp
      next
        case c1ok: False
        show ?thesis
        proof (cases "unat c2 < 0x80 \<or> 0xBF < unat c2")
          case True
          then show ?thesis unfolding s t d using c1ok by simp
        next
          case False
          from sound_three [OF three [unfolded b0_def] c1ok False refl]
          show ?thesis unfolding s t d using c1ok False by simp
        qed
      qed
    qed
  next
    case four
    then have sz: "firstSize (unat c0) = 4" by (simp add: firstSize_def b0_def)
    show ?thesis
    proof (cases "length t < 3")
      case True
      then have "length (c0 # t) < firstSize (unat c0)" by (simp add: sz)
      then show ?thesis unfolding s by (simp add: DecodeRuneInString_short)
    next
      case False
      then obtain c1 c2 c3 t3 where t: "t = c1 # c2 # c3 # t3"
        by (cases t; cases "tl t"; cases "tl (tl t)") auto
      note d = DecodeRuneInString_four [OF four [unfolded b0_def], of c1 c2 c3 t3]
      show ?thesis
      proof (cases "unat c1 < acceptLo (unat c0) \<or> acceptHi (unat c0) < unat c1")
        case True
        then show ?thesis unfolding s t d by simp
      next
        case c1ok: False
        show ?thesis
        proof (cases "unat c2 < 0x80 \<or> 0xBF < unat c2")
          case True
          then show ?thesis unfolding s t d using c1ok by simp
        next
          case c2ok: False
          show ?thesis
          proof (cases "unat c3 < 0x80 \<or> 0xBF < unat c3")
            case True
            then show ?thesis unfolding s t d using c1ok c2ok by simp
          next
            case False
            from sound_four [OF four [unfolded b0_def] c1ok c2ok False refl]
            show ?thesis unfolding s t d using c1ok c2ok False by simp
          qed
        qed
      qed
    qed
  qed
qed

lemma decodeUnits_step:
  assumes "s \<noteq> []"
  shows "decodeUnits s =
     (fst (DecodeRuneInString s), take (snd (DecodeRuneInString s)) s)
       # decodeUnits (drop (snd (DecodeRuneInString s)) s)"
proof -
  from assms obtain c t where s: "s = c # t" by (cases s) auto
  from DecodeRuneInString_width [OF assms] obtain w
    where w: "snd (DecodeRuneInString s) = Suc w" by (cases "snd (DecodeRuneInString s)") auto
  show ?thesis using w unfolding s by simp
qed

lemma decodeUnits_encode_append:
  assumes "validRune r"
  shows "decodeUnits (EncodeRune r @ t) = (r, EncodeRune r) # decodeUnits t"
proof -
  have ne: "EncodeRune r @ t \<noteq> []" using EncodeRune_nonempty by simp
  show ?thesis
    by (simp add: decodeUnits_step [OF ne] decode_encode [OF assms])
qed

lemma decodeUnits_StringOfRunes_append:
  "list_all validRune rs \<Longrightarrow>
   decodeUnits (StringOfRunes rs @ t) = map (\<lambda>r. (r, EncodeRune r)) rs @ decodeUnits t"
  by (induction rs) (simp_all add: StringOfRunes_def decodeUnits_encode_append)

lemma decodeUnits_StringOfRunes:
  "list_all validRune rs \<Longrightarrow> decodeUnits (StringOfRunes rs) = map (\<lambda>r. (r, EncodeRune r)) rs"
  using decodeUnits_StringOfRunes_append [of rs "[]"] by simp

lemma runes_StringOfRunes: "list_all validRune rs \<Longrightarrow> runes (StringOfRunes rs) = rs"
  by (simp add: runes_def decodeUnits_StringOfRunes comp_def)

lemma decodeUnits_sound:
  "u \<in> set (decodeUnits s) \<Longrightarrow>
   validRune (fst u) \<and> (snd u = EncodeRune (fst u) \<or> (fst u = RuneError \<and> length (snd u) = 1))"
proof (induction s arbitrary: u rule: decodeUnits.induct)
  case 1
  then show ?case by simp
next
  case (2 c s)
  have ne: "c # s \<noteq> []" by simp
  from 2 consider "u = (fst (DecodeRuneInString (c # s)),
        take (snd (DecodeRuneInString (c # s))) (c # s))"
    | "u \<in> set (decodeUnits (drop (snd (DecodeRuneInString (c # s)) - 1) s))"
    by auto
  then show ?case
  proof cases
    case 1
    from DecodeRuneInString_sound [OF ne] show ?thesis
    proof
      assume "DecodeRuneInString (c # s) = (RuneError, 1)"
      then show ?thesis using 1 by (simp add: validRune_RuneError)
    next
      assume "validRune (fst (DecodeRuneInString (c # s))) \<and>
        take (snd (DecodeRuneInString (c # s))) (c # s) = EncodeRune (fst (DecodeRuneInString (c # s)))"
      then show ?thesis using 1 by simp
    qed
  next
    case 2
    then show ?thesis by (rule "2.IH")
  qed
qed

lemma runes_valid: "list_all validRune (runes s)"
  using decodeUnits_sound [of _ s] by (auto simp: runes_def list_all_iff)

lemma concat_decodeUnits: "concat (map snd (decodeUnits s)) = s"
proof (induction s rule: decodeUnits.induct)
  case 1
  then show ?case by simp
next
  case (2 c s)
  from DecodeRuneInString_width [of "c # s"] obtain w
    where w: "snd (DecodeRuneInString (c # s)) = Suc w"
    by (cases "snd (DecodeRuneInString (c # s))") auto
  from 2 show ?case by (simp add: w)
qed

lemma ValidString_units:
  assumes "ValidString s"
  shows "decodeUnits s = map (\<lambda>r. (r, EncodeRune r)) (runes s)"
proof -
  have "\<And>u. u \<in> set (decodeUnits s) \<Longrightarrow> u = (fst u, EncodeRune (fst u))"
  proof -
    fix u assume u: "u \<in> set (decodeUnits s)"
    from assms u have "\<not> (fst u = RuneError \<and> length (snd u) = 1)"
      by (simp add: ValidString_def list_all_iff)
    with decodeUnits_sound [OF u] have "snd u = EncodeRune (fst u)" by blast
    then show "u = (fst u, EncodeRune (fst u))" by (cases u) simp
  qed
  then have "map (\<lambda>u. (fst u, EncodeRune (fst u))) (decodeUnits s) = decodeUnits s"
    by (simp add: map_idI)
  then show ?thesis by (simp add: runes_def comp_def)
qed

lemma ValidString_roundtrip: "ValidString s \<Longrightarrow> StringOfRunes (runes s) = s"
  using concat_decodeUnits [of s] by (simp add: ValidString_units StringOfRunes_def comp_def)

lemma EncodeRune_length_RuneError: "length (EncodeRune RuneError) = 3"
  by (simp add: EncodeRune_def RuneError_def)

lemma ValidString_StringOfRunes:
  assumes "list_all validRune rs"
  shows "ValidString (StringOfRunes rs)"
  unfolding ValidString_def decodeUnits_StringOfRunes [OF assms]
  by (auto simp: list_all_iff EncodeRune_length_RuneError)

section \<open>What the detector computes\<close>

lemma isEmoji_matchRune: "isEmoji r \<Longrightarrow> matchRune emojiPattern r"
  by (simp add: isEmoji_def matchRune_def emojiPattern_def split: if_splits)

lemma inEmojiRange_matchRune: "inEmojiRange r = matchRune emojiPattern r"
  using isEmoji_matchRune by (auto simp: inEmojiRange_def)

lemma matchRune_not_RuneError: "\<not> matchRune emojiPattern RuneError"
  by (simp add: matchRune_def emojiPattern_def RuneError_def)

lemma emojiRegex_New [simp]: "emojiRegex (NewDetectorWithAllowed allowed) = emojiPattern"
  by (simp add: NewDetectorWithAllowed_def NewDetector_def)

lemma fold_mapSet_set: "set (fold (\<lambda>emoji m. mapSet m emoji) xs m0) = set m0 \<union> set xs"
  by (induction xs arbitrary: m0) (auto simp: mapSet_def)

lemma allowedEmojis_New [simp]: "set (allowedEmojis (NewDetectorWithAllowed allowed)) = set allowed"
  by (simp add: NewDetectorWithAllowed_def NewDetector_def fold_mapSet_set)

lemma allowedEmojis_New_empty:
  "length (allowedEmojis (NewDetectorWithAllowed allowed)) > 0 \<longleftrightarrow> allowed \<noteq> []"
  using allowedEmojis_New [of allowed] by (metis length_greater_0_conv set_empty)

lemma NewDetector_eq: "NewDetector = NewDetectorWithAllowed []"
  by (simp add: NewDetectorWithAllowed_def NewDetector_def)

lemma MatchString_EncodeRune:
  "validRune r \<Longrightarrow> MatchString re (EncodeRune r) = matchRune re r"
  using decodeUnits_encode_append [of r "[]"] by (simp add: MatchString_def)

lemma fold_append_filter:
  "fold (\<lambda>r cleaned. if P r then cleaned @ [r] else cleaned) rs acc = acc @ filter P rs"
  by (induction rs arbitrary: acc) simp_all

lemma removePerRune_filter:
  assumes "emojiRegex d = emojiPattern"
  shows "removePerRune d text = StringOfRunes (filter (\<lambda>r. \<not> qualifies d r) (runes text))"
proof -
  have valid: "list_all validRune (runes text)" by (rule runes_valid)
  have step: "\<And>rs acc. list_all validRune rs \<Longrightarrow>
      fold (\<lambda>r cleaned.
          let emoji = EncodeRune r in
          if isEmoji r \<or> MatchString (emojiRegex d) emoji then
            (if emoji \<in> set (allowedEmojis d) then cleaned @ [r] else cleaned)
          else cleaned @ [r]) rs acc
      = acc @ filter (\<lambda>r. \<not> qualifies d r) rs"
  proof -
    fix rs :: "rune list" and acc
    assume "list_all validRune rs"
    then show "fold (\<lambda>r cleaned.
          let emoji = EncodeRune r in
          if isEmoji r \<or> MatchString (emojiRegex d) emoji then
            (if emoji \<in> set (allowedEmojis d) then cleaned @ [r] else cleaned)
          else cleaned @ [r]) rs acc
      = acc @ filter (\<lambda>r. \<not> qualifies d r) rs"
      by (induction rs arbitrary: acc)
        (simp_all add: Let_def assms MatchString_EncodeRune qualifies_def inEmojiRange_def)
  qed
  show ?thesis unfolding removePerRune_def by (simp add: step [OF valid])
qed

lemma ReplaceAllString_valid:
  assumes "ValidString text"
  shows "ReplaceAllString re text = StringOfRunes (filter (\<lambda>r. \<not> matchRune re r) (runes text))"
  unfolding ReplaceAllString_def ValidString_units [OF assms] StringOfRunes_def
  by (simp add: filter_map comp_def)

lemma list_all_filter: "list_all P xs \<Longrightarrow> list_all P (filter Q xs)"
  by (simp add: list_all_iff)

lemma removeByPattern_filter:
  assumes "emojiRegex d = emojiPattern" "ValidString text"
  shows "removeByPattern d text
    = StringOfRunes (filter (\<lambda>r. \<not> matchRune emojiPattern r) (runes text))"
proof -
  let ?rs = "filter (\<lambda>r. \<not> matchRune emojiPattern r) (runes text)"
  have v: "list_all validRune ?rs" by (rule list_all_filter [OF runes_valid])
  have "\<And>r. (\<not> matchRune emojiPattern r \<and> \<not> isEmoji r) = (\<not> matchRune emojiPattern r)"
    using isEmoji_matchRune by blast
  then have "filter (\<lambda>r. \<not> isEmoji r) ?rs = ?rs" by simp
  then show ?thesis
    unfolding removeByPattern_def
    by (simp add: assms ReplaceAllString_valid runes_StringOfRunes [OF v] fold_append_filter)
qed

lemma RemoveEmojis_filter:
  assumes "emojiRegex d = emojiPattern" "ValidString text \<or> allowedEmojis d \<noteq> []"
  shows "RemoveEmojis d text = StringOfRunes (filter (\<lambda>r. \<not> qualifies d r) (runes text))"
proof (cases "allowedEmojis d = []")
  case True
  with assms have v: "ValidString text" by simp
  have "qualifies d = matchRune emojiPattern"
    by (rule ext) (simp add: qualifies_def True inEmojiRange_matchRune)
  then show ?thesis
    using True by (simp add: RemoveEmojis_def removeByPattern_filter [OF assms(1) v])
next
  case False
  then show ?thesis by (simp add: RemoveEmojis_def removePerRune_filter [OF assms(1)])
qed

lemma runes_RemoveEmojis:
  assumes "emojiRegex d = emojiPattern" "ValidString text \<or> allowedEmojis d \<noteq> []"
  shows "runes (RemoveEmojis d text) = filter (\<lambda>r. \<not> qualifies d r) (runes text)"
  unfolding RemoveEmojis_filter [OF assms]
  by (rule runes_StringOfRunes) (rule list_all_filter [OF runes_valid])

lemma RemoveEmojis_idem:
  assumes "emojiRegex d = emojiPattern" "ValidString text \<or> allowedEmojis d \<noteq> []"
  shows "RemoveEmojis d (RemoveEmojis d text) = RemoveEmojis d text"
proof -
  let ?out = "RemoveEmojis d text"
  have out: "?out = StringOfRunes (filter (\<lambda>r. \<not> qualifies d r) (runes text))"
    by (rule RemoveEmojis_filter [OF assms])
  have "ValidString ?out"
    unfolding out by (rule ValidString_StringOfRunes) (rule list_all_filter [OF runes_valid])
  then have "RemoveEmojis d ?out = StringOfRunes (filter (\<lambda>r. \<not> qualifies d r) (runes ?out))"
    by (intro RemoveEmojis_filter assms(1)) simp
  also have "\<dots> = StringOfRunes (filter (\<lambda>r. \<not> qualifies d r)
                      (filter (\<lambda>r. \<not> qualifies d r) (runes text)))"
    by (simp add: runes_RemoveEmojis [OF assms])
  also have "\<dots> = ?out" by (simp add: out)
  finally show ?thesis .
qed

lemma set_firstOccurrences: "set (firstOccurrences xs) = set xs"
  by (induction xs rule: firstOccurrences.induct) auto

lemma distinct_firstOccurrences: "distinct (firstOccurrences xs)"
  by (induction xs rule: firstOccurrences.induct) (auto simp: set_firstOccurrences)

lemma firstOccurrences_Nil_iff: "firstOccurrences xs = [] \<longleftrightarrow> xs = []"
  by (cases xs) simp_all

lemma FindAllString_eq:
  "FindAllString emojiPattern text
     = map EncodeRune (filter (matchRune emojiPattern) (runes text))"
proof -
  have "\<And>u. u \<in> set (decodeUnits text) \<Longrightarrow> matchRune emojiPattern (fst u)
          \<Longrightarrow> snd u = EncodeRune (fst u)"
    using decodeUnits_sound matchRune_not_RuneError by metis
  then have "map snd (filter (\<lambda>u. matchRune emojiPattern (fst u)) (decodeUnits text))
      = map (\<lambda>u. EncodeRune (fst u)) (filter (\<lambda>u. matchRune emojiPattern (fst u)) (decodeUnits text))"
    by (intro map_cong) auto
  then show ?thesis
    by (simp add: FindAllString_def runes_def filter_map comp_def)
qed

lemma set_mapSet: "set (mapSet m k) = insert k (set m)"
  by (auto simp: mapSet_def)

lemma fold_noteEmoji:
  assumes "set seen = set es"
  shows "fst (fold (noteEmoji d) ms (es, seen))
           = es @ firstOccurrences
                    (filter (\<lambda>m. m \<notin> set (allowedEmojis d) \<and> m \<notin> set es) ms)
       \<and> set (snd (fold (noteEmoji d) ms (es, seen)))
           = set (fst (fold (noteEmoji d) ms (es, seen)))"
  using assms
proof (induction ms arbitrary: es seen)
  case Nil
  then show ?case by simp
next
  case (Cons m ms)
  show ?case
  proof (cases "m \<in> set (allowedEmojis d) \<or> m \<in> set es")
    case True
    then have "noteEmoji d m (es, seen) = (es, seen)"
      using Cons.prems by (auto simp: noteEmoji_def)
    then show ?thesis using True Cons.IH [OF Cons.prems] by auto
  next
    case False
    then have step: "noteEmoji d m (es, seen) = (es @ [m], mapSet seen m)"
      using Cons.prems by (auto simp: noteEmoji_def)
    have inv: "set (mapSet seen m) = set (es @ [m])"
      using Cons.prems by (simp add: set_mapSet)
    have flt: "filter (\<lambda>x. x \<notin> set (allowedEmojis d) \<and> x \<notin> set (es @ [m])) ms
       = filter (\<lambda>y. y \<noteq> m) (filter (\<lambda>x. x \<notin> set (allowedEmojis d) \<and> x \<notin> set es) ms)"
      by (auto intro: filter_cong)
    have "fst (fold (noteEmoji d) (m # ms) (es, seen))
        = fst (fold (noteEmoji d) ms (es @ [m], mapSet seen m))" by (simp add: step)
    also have "\<dots> = (es @ [m]) @ firstOccurrences
        (filter (\<lambda>x. x \<notin> set (allowedEmojis d) \<and> x \<notin> set (es @ [m])) ms)"
      using Cons.IH [OF inv] by blast
    also have "\<dots> = es @ firstOccurrences
        (filter (\<lambda>m. m \<notin> set (allowedEmojis d) \<and> m \<notin> set es) (m # ms))"
      unfolding flt using False by simp
    finally have a: "fst (fold (noteEmoji d) (m # ms) (es, seen)) = es @ firstOccurrences
        (filter (\<lambda>m. m \<notin> set (allowedEmojis d) \<and> m \<notin> set es) (m # ms))" .
    have b: "set (snd (fold (noteEmoji d) (m # ms) (es, seen)))
        = set (fst (fold (noteEmoji d) (m # ms) (es, seen)))"
      using Cons.IH [OF inv] by (simp add: step)
    from a b show ?thesis by blast
  qed
qed

lemma noteEmoji_noop:
  "emoji \<in> set (allowedEmojis d) \<or> emoji \<in> set (snd st) \<Longrightarrow> noteEmoji d emoji st = st"
  by (auto simp: noteEmoji_def)

lemma fold_second_loop_noop:
  "(\<And>r. r \<in> set rs \<Longrightarrow> isEmoji r \<Longrightarrow>
       EncodeRune r \<in> set (allowedEmojis d) \<or> EncodeRune r \<in> set (snd st)) \<Longrightarrow>
   fold (\<lambda>r st. if isEmoji r then noteEmoji d (EncodeRune r) st else st) rs st = st"
  by (induction rs) (simp_all add: noteEmoji_noop)

lemma FindEmojis_eq:
  assumes "emojiRegex d = emojiPattern"
  shows "FindEmojis d text
    = firstOccurrences (map EncodeRune (filter (qualifies d) (runes text)))"
proof -
  define ms where "ms = FindAllString emojiPattern text"
  define st1 where "st1 = fold (noteEmoji d) ms ([], [])"
  have ms: "ms = map EncodeRune (filter (matchRune emojiPattern) (runes text))"
    unfolding ms_def by (rule FindAllString_eq)
  from fold_noteEmoji [of "[]" "[]" d ms]
  have fst1: "fst st1 = firstOccurrences (filter (\<lambda>m. m \<notin> set (allowedEmojis d)) ms)"
    and snd1: "set (snd st1) = set (fst st1)"
    unfolding st1_def by simp_all
  have seen: "set (snd st1) = {m \<in> set ms. m \<notin> set (allowedEmojis d)}"
    unfolding snd1 fst1 set_firstOccurrences by auto
  have noop: "fold (\<lambda>r st. if isEmoji r then noteEmoji d (EncodeRune r) st else st)
                (runes text) st1 = st1"
  proof (rule fold_second_loop_noop)
    fix r assume r: "r \<in> set (runes text)" "isEmoji r"
    then have "EncodeRune r \<in> set ms" unfolding ms using isEmoji_matchRune by auto
    then show "EncodeRune r \<in> set (allowedEmojis d) \<or> EncodeRune r \<in> set (snd st1)"
      unfolding seen by auto
  qed
  have q: "qualifies d
      = (\<lambda>r. matchRune emojiPattern r \<and> EncodeRune r \<notin> set (allowedEmojis d))"
    by (rule ext) (simp add: qualifies_def inEmojiRange_matchRune)
  have "filter (\<lambda>m. m \<notin> set (allowedEmojis d)) ms
      = map EncodeRune (filter (qualifies d) (runes text))"
    unfolding ms q by (simp add: filter_map comp_def)
  then show ?thesis
    unfolding FindEmojis_def Let_def assms ms_def [symmetric] st1_def [symmetric] noop
    by (simp add: fst1)
qed

lemma count_list_filter:
  "count_list (filter P xs) x = (if P x then count_list xs x else 0)"
  by (induction xs) auto

section \<open>What the walk guarantees\<close>

lemma ProcessFile_FilePath: "FilePath (fst (fst (ProcessFile fp filePath dryRun st))) = filePath"
  by (simp add: ProcessFile_def Let_def split: sum.splits prod.splits option.splits)

lemma walkFn_outsideVCS:
  assumes "list_all outsideVCS (fst acc)"
  shows "list_all outsideVCS (fst (snd (walkFn Match fp dryRun path isDir err acc)))"
proof (cases "err = None \<and> \<not> isExcluded Match fp path \<and> \<not> isDir
    \<and> \<not> (Contains path ''/.git/'' \<or> Contains path ''/.svn/'' \<or> Contains path ''/.hg/'')
    \<and> \<not> shouldSkipFile (snd acc) path")
  case False
  then show ?thesis using assms by (auto simp: walkFn_def split: option.splits)
next
  case True
  obtain result e st1 where p: "ProcessFile fp path dryRun (snd acc) = ((result, e), st1)"
    by (metis surj_pair)
  from ProcessFile_FilePath [of fp path dryRun "snd acc"] p have fpath: "FilePath result = path"
    by simp
  with True have "outsideVCS result" by (simp add: outsideVCS_def)
  then show ?thesis
    using True assms p by (cases e) (simp_all add: walkFn_def)
qed

lemma walk_preserves:
  "(\<And>path isDir err acc. P (fst acc) \<Longrightarrow> P (fst (snd (fn path isDir err acc)))) \<Longrightarrow>
   P (fst acc) \<Longrightarrow> P (fst (snd (walkDir fn path d acc)))"
  "(\<And>path isDir err acc. P (fst acc) \<Longrightarrow> P (fst (snd (fn path isDir err acc)))) \<Longrightarrow>
   P (fst acc) \<Longrightarrow> P (fst (snd (walkDirs fn path ds acc)))"
proof (induction fn path d acc and fn path ds acc rule: walkDir_walkDirs.induct)
  case (1 fn path name acc)
  then show ?case by simp
next
  case (2 fn path name readDirFails children acc)
  note fnP = "2.prems"(1)
  obtain s1 acc1 where a: "fn path True None acc = (s1, acc1)"
    by (metis surj_pair)
  from fnP [OF "2.prems"(2), of path True None] a
  have i1: "P (fst acc1)" by simp
  show ?case
  proof (cases s1)
    case Continue
    show ?thesis
    proof (cases readDirFails)
      case False
      from "2.IH"(2) [OF a [symmetric] Continue False fnP i1] a Continue False
      show ?thesis by simp
    next
      case True
      obtain s2 acc2 where b: "fn path True (Some (OSError path)) acc1 = (s2, acc2)"
        by (metis surj_pair)
      from fnP [OF i1, of path True "Some (OSError path)"] b
      have i2: "P (fst acc2)" by simp
      show ?thesis
      proof (cases s2)
        case c2: Continue
        from "2.IH"(1) [OF a [symmetric] Continue True b [symmetric] c2 fnP i2]
          a Continue True b c2
        show ?thesis by simp
      next
        case SkipDir
        with a Continue True b i2 show ?thesis by simp
      next
        case (Fail e)
        with a Continue True b i2 show ?thesis by simp
      qed
    qed
  next
    case SkipDir
    with a i1 show ?thesis by simp
  next
    case (Fail e)
    with a i1 show ?thesis by simp
  qed
next
  case (3 fn path acc)
  then show ?case by simp
next
  case (4 fn path d1 ds acc)
  note fnP = "4.prems"(1)
  obtain s1 acc1 where a: "walkDir fn (Join path (entryName d1)) d1 acc = (s1, acc1)"
    by (metis surj_pair)
  from "4.IH"(1) [OF fnP "4.prems"(2)] a have i1: "P (fst acc1)" by simp
  show ?case
  proof (cases s1)
    case Continue
    from "4.IH"(2) [OF a [symmetric] Continue fnP i1] a Continue show ?thesis by simp
  next
    case SkipDir
    with a i1 show ?thesis by simp
  next
    case (Fail e)
    with a i1 show ?thesis by simp
  qed
qed

lemma ProcessDirectory_outsideVCS:
  "list_all outsideVCS (fst (fst (ProcessDirectory Match fp dirPath dryRun tree st)))"
proof -
  have start: "list_all outsideVCS (fst (([] :: ProcessResult list), st))" by simp
  have "list_all outsideVCS (fst (snd (WalkDir (walkFn Match fp dryRun) dirPath tree ([], st))))"
  proof (cases tree)
    case None
    obtain s acc1 where a: "walkFn Match fp dryRun dirPath False (Some (OSError dirPath)) ([], st)
        = (s, acc1)" by (metis surj_pair)
    from walkFn_outsideVCS [OF start, of Match fp dryRun dirPath False "Some (OSError dirPath)"] a
    have "list_all outsideVCS (fst acc1)" by simp
    with None a show ?thesis by (cases s) (simp_all add: WalkDir_def)
  next
    case (Some d)
    obtain s acc1 where a: "walkDir (walkFn Match fp dryRun) dirPath d ([], st) = (s, acc1)"
      by (metis surj_pair)
    from walk_preserves(1) [of "list_all outsideVCS" "walkFn Match fp dryRun", OF walkFn_outsideVCS start,
        of dirPath d] a
    have "list_all outsideVCS (fst acc1)" by simp
    with Some a show ?thesis by (cases s) (simp_all add: WalkDir_def)
  qed
  then show ?thesis by (auto simp: ProcessDirectory_def split: prod.splits)
qed

section \<open>Closed examples are evaluated with these equations\<close>

lemmas utf8_ev = DecodeRuneInString_def firstSize_def acceptLo_def acceptHi_def RuneError_def
  EncodeRune_def runes_def StringOfRunes_def ValidString_def

lemmas det_ev = emojiPattern_def matchRune_def FindAllString_def ReplaceAllString_def
  MatchString_def mapSet_def NewDetector_def NewDetectorWithAllowed_def isEmoji_def
  noteEmoji_def FindEmojis_def removePerRune_def removeByPattern_def RemoveEmojis_def
  inEmojiRange_def qualifies_def

lemmas path_ev = HasPrefix_def HasSuffix_def IsAbs_def cleanStep_def Clean_def Join_def
  Base_def Ext_def literalMatch_def matchExclude_def isExcluded_def

lemmas proc_ev = os_ReadFile_def os_WriteFile_def os_Chmod_def os_Stat_def mode0600_def
  NewFileProcessor_def NewFileProcessorWithExcludes_def
  NewFileProcessorWithExcludesAndAllowed_def skipExtensions_def shouldSkipFile_def
  ProcessFile_def walkFn_def WalkDir_def ProcessDirectory_def TrimSuffix_def
  processContentFromStdin_def neverFails_def Let_def

section \<open>The claims about the detector\<close>

text \<open>
  Claim C1 (preservation), as amended. For every well-formed UTF-8 text \<open>t\<close>, and for
  every byte string \<open>t\<close> when the allow set is not empty, the code points of
  \<open>RemoveEmojis t\<close> are exactly the code points of \<open>t\<close> that do not qualify, in
  their order and number: every one of them is kept, none is moved, and nothing is put
  in the place of a deleted code point. The result is the UTF-8 encoding of that
  sequence. (The string \<open>"Hi "\<close> followed by U+1F60A is the bytes 48 69 20 F0 9F 98 8A.)
\<close>

theorem RemoveEmojis_preserves:
  assumes "ValidString t \<or> allowed \<noteq> []"
  shows "runes (RemoveEmojis (NewDetectorWithAllowed allowed) t)
           = filter (\<lambda>r. \<not> qualifies (NewDetectorWithAllowed allowed) r) (runes t)
       \<and> RemoveEmojis (NewDetectorWithAllowed allowed) t
           = StringOfRunes
               (filter (\<lambda>r. \<not> qualifies (NewDetectorWithAllowed allowed) r) (runes t))"
proof -
  have h: "ValidString t \<or> allowedEmojis (NewDetectorWithAllowed allowed) \<noteq> []"
    using assms allowedEmojis_New_empty [of allowed] by auto
  show ?thesis
    using runes_RemoveEmojis [OF emojiRegex_New h] RemoveEmojis_filter [OF emojiRegex_New h]
    by blast
qed

theorem RemoveEmojis_preserves_witness:
  "ValidString [0x48, 0x69, 0x20, 0xF0, 0x9F, 0x98, 0x8A]
   \<and> runes (RemoveEmojis (NewDetectorWithAllowed []) [0x48, 0x69, 0x20, 0xF0, 0x9F, 0x98, 0x8A])
       = [0x48, 0x69, 0x20]"
proof -
  have v: "ValidString [0x48, 0x69, 0x20, 0xF0, 0x9F, 0x98, 0x8A]"
    by (simp add: utf8_ev)
  then have h: "ValidString [0x48, 0x69, 0x20, 0xF0, 0x9F, 0x98, 0x8A] \<or> ([] :: bytes list) \<noteq> []"
    by (rule disjI1)
  have r: "filter (\<lambda>r. \<not> qualifies (NewDetectorWithAllowed []) r)
             (runes [0x48, 0x69, 0x20, 0xF0, 0x9F, 0x98, 0x8A]) = [0x48, 0x69, 0x20]"
    by (simp add: utf8_ev det_ev)
  from RemoveEmojis_preserves [OF h] have
    "runes (RemoveEmojis (NewDetectorWithAllowed []) [0x48, 0x69, 0x20, 0xF0, 0x9F, 0x98, 0x8A])
       = filter (\<lambda>r. \<not> qualifies (NewDetectorWithAllowed []) r)
           (runes [0x48, 0x69, 0x20, 0xF0, 0x9F, 0x98, 0x8A])" by (rule conjunct1)
  with v r show ?thesis by simp
qed

text \<open>
  C1 as stated fails on an ill-formed string when the allow set is empty. In the bytes
  C3, E2 98 80, A9 the first and the last byte decode to U+FFFD each and the middle three
  are U+2600, an emoji. \<open>ReplaceAllString\<close> copies the bytes around the match, so the
  result is C3 A9, which the second loop reads as the one code point U+00E9: the two
  code points U+FFFD of the input, which do not qualify, are not in the output.
\<close>

theorem RemoveEmojis_preserves_counterexample:
  "RuneError \<in> set (runes [0xC3, 0xE2, 0x98, 0x80, 0xA9])
   \<and> \<not> qualifies NewDetector RuneError
   \<and> RuneError \<notin> set (runes (RemoveEmojis NewDetector [0xC3, 0xE2, 0x98, 0x80, 0xA9]))
   \<and> RemoveEmojis NewDetector [0xC3, 0xE2, 0x98, 0x80, 0xA9] = [0xC3, 0xA9]"
  by (simp add: utf8_ev det_ev)

text \<open>
  Claim C2 (idempotence), as amended. For every well-formed UTF-8 text \<open>x\<close>, and for
  every byte string \<open>x\<close> when the allow set is not empty, applying \<open>RemoveEmojis\<close>
  to its own output returns that output.
\<close>

theorem RemoveEmojis_idempotent:
  assumes "ValidString x \<or> allowed \<noteq> []"
  shows "RemoveEmojis (NewDetectorWithAllowed allowed)
           (RemoveEmojis (NewDetectorWithAllowed allowed) x)
         = RemoveEmojis (NewDetectorWithAllowed allowed) x"
proof -
  have h: "ValidString x \<or> allowedEmojis (NewDetectorWithAllowed allowed) \<noteq> []"
    using assms allowedEmojis_New_empty [of allowed] by auto
  show ?thesis by (rule RemoveEmojis_idem [OF emojiRegex_New h])
qed

theorem RemoveEmojis_idempotent_witness:
  "ValidString [0x48, 0x69, 0x20, 0xF0, 0x9F, 0x98, 0x8A]
   \<and> RemoveEmojis (NewDetectorWithAllowed [])
         (RemoveEmojis (NewDetectorWithAllowed []) [0x48, 0x69, 0x20, 0xF0, 0x9F, 0x98, 0x8A])
       = RemoveEmojis (NewDetectorWithAllowed []) [0x48, 0x69, 0x20, 0xF0, 0x9F, 0x98, 0x8A]"
proof -
  have v: "ValidString [0x48, 0x69, 0x20, 0xF0, 0x9F, 0x98, 0x8A]"
    by (simp add: utf8_ev)
  then have h: "ValidString [0x48, 0x69, 0x20, 0xF0, 0x9F, 0x98, 0x8A] \<or> ([] :: bytes list) \<noteq> []"
    by (rule disjI1)
  show ?thesis by (rule conjI [OF v RemoveEmojis_idempotent [OF h]])
qed

text \<open>
  C2 as stated fails on an ill-formed string when the allow set is empty. In the bytes
  F0 9F, E2 98 80, 80 98 the emoji U+2600 stands between the two halves of the encoding
  of U+1F018. The first application removes U+2600 and joins the halves into U+1F018,
  which is in a range of the pattern but not of \<open>isEmoji\<close>, so it stays; the second
  application removes it.
\<close>

theorem RemoveEmojis_idempotent_counterexample:
  "RemoveEmojis NewDetector (RemoveEmojis NewDetector [0xF0, 0x9F, 0xE2, 0x98, 0x80, 0x80, 0x98])
     \<noteq> RemoveEmojis NewDetector [0xF0, 0x9F, 0xE2, 0x98, 0x80, 0x80, 0x98]"
  by (simp add: utf8_ev det_ev)

text \<open>
  Claim C3 (allow-list exemption). For every allow list, every byte string \<open>t\<close> and
  every code point \<open>e\<close> whose one-character string is in the allow list,
  \<open>RemoveEmojis t\<close> has as many occurrences of \<open>e\<close> as \<open>t\<close> has, and the string of
  \<open>e\<close> is not in \<open>FindEmojis t\<close>.
\<close>

theorem allowed_emoji_exempt:
  assumes "EncodeRune e \<in> set allowed"
  shows "count_list (runes (RemoveEmojis (NewDetectorWithAllowed allowed) t)) e
           = count_list (runes t) e
       \<and> EncodeRune e \<notin> set (FindEmojis (NewDetectorWithAllowed allowed) t)"
proof -
  let ?d = "NewDetectorWithAllowed allowed"
  from assms have ne: "ValidString t \<or> allowedEmojis ?d \<noteq> []"
    using allowedEmojis_New [of allowed] by (metis empty_iff set_empty)
  have nq: "\<not> qualifies ?d e" using assms by (simp add: qualifies_def)
  have "count_list (runes (RemoveEmojis ?d t)) e = count_list (runes t) e"
    unfolding runes_RemoveEmojis [OF emojiRegex_New ne] using nq by (simp add: count_list_filter)
  moreover have "EncodeRune e \<notin> set (FindEmojis ?d t)"
    unfolding FindEmojis_eq [OF emojiRegex_New] set_firstOccurrences
    using assms by (auto simp: qualifies_def)
  ultimately show ?thesis by blast
qed

text \<open>The allow list holds U+2705 (E2 9C 85); the text is \<open>G\<close>, U+2705, U+1F680.\<close>

theorem allowed_emoji_exempt_witness:
  "EncodeRune 0x2705 \<in> set [[0xE2, 0x9C, 0x85]]
   \<and> count_list (runes (RemoveEmojis (NewDetectorWithAllowed [[0xE2, 0x9C, 0x85]])
         [0x47, 0xE2, 0x9C, 0x85, 0xF0, 0x9F, 0x9A, 0x80])) 0x2705 = 1
   \<and> EncodeRune 0x2705 \<notin> set (FindEmojis (NewDetectorWithAllowed [[0xE2, 0x9C, 0x85]])
         [0x47, 0xE2, 0x9C, 0x85, 0xF0, 0x9F, 0x9A, 0x80])"
proof -
  have h: "EncodeRune 0x2705 \<in> set [[0xE2, 0x9C, 0x85]]" by (simp add: utf8_ev)
  have c: "count_list (runes [0x47, 0xE2, 0x9C, 0x85, 0xF0, 0x9F, 0x9A, 0x80]) 0x2705 = 1"
    by (simp add: utf8_ev)
  from allowed_emoji_exempt [OF h, of "[0x47, 0xE2, 0x9C, 0x85, 0xF0, 0x9F, 0x9A, 0x80]"] h c
  show ?thesis by simp
qed

text \<open>
  Claim C4 (distinctness and order). For every byte string \<open>t\<close>, \<open>FindEmojis t\<close> is
  the list of the strings of the qualifying code points of \<open>t\<close>, each once, ordered by
  first occurrence; it is empty exactly when \<open>t\<close> has no qualifying code point, as
  for the empty text. The function has no error result and no partial operation: the
  model is a total function with no error branch because the source has none.
\<close>

theorem FindEmojis_first_occurrences:
  "FindEmojis (NewDetectorWithAllowed allowed) t
     = firstOccurrences
         (map EncodeRune (filter (qualifies (NewDetectorWithAllowed allowed)) (runes t)))
   \<and> distinct (FindEmojis (NewDetectorWithAllowed allowed) t)
   \<and> ((FindEmojis (NewDetectorWithAllowed allowed) t = [])
        = (filter (qualifies (NewDetectorWithAllowed allowed)) (runes t) = []))
   \<and> FindEmojis (NewDetectorWithAllowed allowed) [] = []"
proof -
  let ?d = "NewDetectorWithAllowed allowed"
  note eq = FindEmojis_eq [OF emojiRegex_New, of allowed]
  have "FindEmojis ?d [] = []" unfolding eq by (simp add: runes_def)
  then show ?thesis
    unfolding eq by (simp add: distinct_firstOccurrences firstOccurrences_Nil_iff)
qed

text \<open>U+1F680, a space, U+1F60A, U+1F680 again: two emojis, in the order of first occurrence.\<close>

theorem FindEmojis_first_occurrences_witness:
  "FindEmojis (NewDetectorWithAllowed [])
      [0xF0, 0x9F, 0x9A, 0x80, 0x20, 0xF0, 0x9F, 0x98, 0x8A, 0xF0, 0x9F, 0x9A, 0x80]
     = [[0xF0, 0x9F, 0x9A, 0x80], [0xF0, 0x9F, 0x98, 0x8A]]"
proof -
  have "firstOccurrences (map EncodeRune (filter (qualifies (NewDetectorWithAllowed []))
          (runes [0xF0, 0x9F, 0x9A, 0x80, 0x20, 0xF0, 0x9F, 0x98, 0x8A, 0xF0, 0x9F, 0x9A, 0x80])))
        = [[0xF0, 0x9F, 0x9A, 0x80], [0xF0, 0x9F, 0x98, 0x8A]]"
    by (simp add: utf8_ev det_ev)
  with FindEmojis_first_occurrences [of "[]"
      "[0xF0, 0x9F, 0x9A, 0x80, 0x20, 0xF0, 0x9F, 0x98, 0x8A, 0xF0, 0x9F, 0x9A, 0x80]"]
  show ?thesis by simp
qed

text \<open>
  Claim C9 (the two branches of \<open>RemoveEmojis\<close>), as amended. With the empty allow
  set, the branch that substitutes the pattern and then filters by \<open>isEmoji\<close> and the
  branch that decides code point by code point return the same string for every
  well-formed UTF-8 text.
\<close>

theorem branches_agree:
  assumes "ValidString t"
  shows "removeByPattern NewDetector t = removePerRune NewDetector t"
proof -
  have re: "emojiRegex NewDetector = emojiPattern" by (simp add: NewDetector_def)
  have "qualifies NewDetector = matchRune emojiPattern"
    by (rule ext) (simp add: qualifies_def NewDetector_def inEmojiRange_matchRune)
  then show ?thesis
    by (simp add: removeByPattern_filter [OF re assms] removePerRune_filter [OF re])
qed

theorem branches_agree_witness:
  "ValidString [0x48, 0x69, 0x20, 0xF0, 0x9F, 0x98, 0x8A]
   \<and> removeByPattern NewDetector [0x48, 0x69, 0x20, 0xF0, 0x9F, 0x98, 0x8A]
       = removePerRune NewDetector [0x48, 0x69, 0x20, 0xF0, 0x9F, 0x98, 0x8A]"
proof -
  have h: "ValidString [0x48, 0x69, 0x20, 0xF0, 0x9F, 0x98, 0x8A]" by (simp add: utf8_ev)
  show ?thesis by (rule conjI [OF h branches_agree [OF h]])
qed

text \<open>
  C9 as stated fails on an ill-formed string: on F0 9F, E2 98 80, 80 98 the pattern
  branch returns F0 9F 80 98 (U+1F018), and the branch by code points returns U+FFFD
  four times, one for each byte that is not part of a well-formed sequence.
\<close>

theorem branches_agree_counterexample:
  "removeByPattern NewDetector [0xF0, 0x9F, 0xE2, 0x98, 0x80, 0x80, 0x98]
     \<noteq> removePerRune NewDetector [0xF0, 0x9F, 0xE2, 0x98, 0x80, 0x80, 0x98]
   \<and> removeByPattern NewDetector [0xF0, 0x9F, 0xE2, 0x98, 0x80, 0x80, 0x98]
       = [0xF0, 0x9F, 0x80, 0x98]
   \<and> removePerRune NewDetector [0xF0, 0x9F, 0xE2, 0x98, 0x80, 0x80, 0x98]
       = [0xEF, 0xBF, 0xBD, 0xEF, 0xBF, 0xBD, 0xEF, 0xBF, 0xBD, 0xEF, 0xBF, 0xBD]"
  by (simp add: utf8_ev det_ev)

section \<open>The claims about the file processor\<close>

text \<open>
  Claim C5 (VCS pruning) does not hold of the code. \<open>ProcessDirectory\<close> looks for
  \<open>/.git/\<close>, \<open>/.svn/\<close> and \<open>/.hg/\<close> as substrings of the path, and
  \<open>filepath.WalkDir\<close> joins the root and the names with \<open>filepath.Join\<close>, which
  cleans: walking the root \<open>.\<close> the file is visited as \<open>.git/objects/ab/xyz\<close>, with
  no separator before \<open>.git\<close>, and it is processed and reported.
\<close>

theorem ProcessDirectory_reports_vcs_file:
  "fst (ProcessDirectory literalMatch (NewFileProcessorWithExcludes []) ''.'' True
     (Some (DirEntry ''.'' False
        [DirEntry ''.git'' False
           [DirEntry ''objects'' False [DirEntry ''ab'' False [FileEntry ''xyz'']]]]))
     \<lparr>files = [''.git/objects/ab/xyz'' \<mapsto>
                 \<lparr>contents = [0x48, 0x69, 0x20, 0xF0, 0x9F, 0x98, 0x8A], perm = 420,
                  isRegular = True\<rparr>],
      readFails = neverFails, writeFails = neverFails, chmodFails = neverFails, calls = []\<rparr>)
   = ([\<lparr>FilePath = ''.git/objects/ab/xyz'', EmojisFound = [[0xF0, 0x9F, 0x98, 0x8A]],
        OriginalSize = 7, NewSize = 3, Modified = True\<rparr>], None)"
  by (simp add: utf8_ev det_ev path_ev proc_ev)

text \<open>
  What the code does guarantee, for every root, tree, exclusion list and matcher: no
  result has a path with \<open>/.git/\<close>, \<open>/.svn/\<close> or \<open>/.hg/\<close> inside it. Under an
  absolute root every file below a version control directory has such a path, as in
  the second lemma, where the tree of the theorem above is walked from \<open>/r\<close>.
\<close>

lemma ProcessDirectory_results_outsideVCS:
  "list_all outsideVCS (fst (fst (ProcessDirectory Match fp dirPath dryRun tree st)))"
  by (rule ProcessDirectory_outsideVCS)

lemma ProcessDirectory_skips_vcs_under_absolute_root:
  "fst (ProcessDirectory literalMatch (NewFileProcessorWithExcludes []) ''/r'' True
     (Some (DirEntry ''r'' False
        [DirEntry ''.git'' False
           [DirEntry ''objects'' False [DirEntry ''ab'' False [FileEntry ''xyz'']]]]))
     \<lparr>files = [''/r/.git/objects/ab/xyz'' \<mapsto>
                 \<lparr>contents = [0x48, 0x69, 0x20, 0xF0, 0x9F, 0x98, 0x8A], perm = 420,
                  isRegular = True\<rparr>],
      readFails = neverFails, writeFails = neverFails, chmodFails = neverFails, calls = []\<rparr>)
   = ([], None)"
  by (simp add: utf8_ev det_ev path_ev proc_ev)

text \<open>
  Claim C6 (exclusion matching), as amended. For a normalized path and pattern,
  \<open>matchExclude\<close> holds exactly when the two are equal; or the pattern is absolute and
  the path starts with it followed by a separator; or the pattern is relative and it
  equals a segment of the path, or the path ends with a separator followed by the
  pattern, or it equals the base name of the path, or it contains \<open>*\<close> or \<open>?\<close> and
  the glob match of the path or of its base name succeeds. A path is excluded exactly
  when some pattern of the list matches it. This holds for every glob matcher.
\<close>

theorem matchExclude_amended:
  assumes "Clean path = path" "Clean pattern = pattern"
  shows "matchExclude Match path pattern = matchesAmended Match path pattern
       \<and> isExcluded Match fp path
           = list_ex (\<lambda>exclude. matchExclude Match path exclude) (excludes fp)"
proof -
  have "matchExclude Match path pattern = matchesAmended Match path pattern"
  proof (cases "path = pattern")
    case True
    then show ?thesis by (simp add: matchExclude_def matchesAmended_def assms)
  next
    case ne: False
    show ?thesis
    proof (cases "IsAbs pattern")
      case True
      with ne show ?thesis by (simp add: matchExclude_def matchesAmended_def assms)
    next
      case False
      with ne show ?thesis
        unfolding matchExclude_def matchesAmended_def Let_def assms by auto
    qed
  qed
  then show ?thesis by (simp add: isExcluded_def)
qed

theorem matchExclude_amended_witness:
  "Clean ''/project/node_modules/file.js'' = ''/project/node_modules/file.js''
   \<and> Clean ''node_modules'' = ''node_modules''
   \<and> matchExclude literalMatch ''/project/node_modules/file.js'' ''node_modules''
   \<and> isExcluded literalMatch (NewFileProcessorWithExcludes [''vendor'', ''node_modules''])
         ''/project/node_modules/file.js''"
proof -
  have h1: "Clean ''/project/node_modules/file.js'' = ''/project/node_modules/file.js''"
    by (simp add: path_ev)
  have h2: "Clean ''node_modules'' = ''node_modules''"
    by (simp add: path_ev)
  have a: "matchesAmended literalMatch ''/project/node_modules/file.js'' ''node_modules''"
    by (simp add: matchesAmended_def path_ev)
  note t = matchExclude_amended [OF h1 h2, of literalMatch
      "NewFileProcessorWithExcludes [''vendor'', ''node_modules'']"]
  from t a have m: "matchExclude literalMatch ''/project/node_modules/file.js'' ''node_modules''"
    by simp
  from t m have "isExcluded literalMatch
      (NewFileProcessorWithExcludes [''vendor'', ''node_modules''])
      ''/project/node_modules/file.js''"
    by (simp add: NewFileProcessorWithExcludes_def)
  with h1 h2 m show ?thesis by simp
qed

text \<open>
  C6 as stated leaves out the suffix test of the code
  (\<open>strings.HasSuffix(path, separator + pattern)\<close>): the relative pattern \<open>b/c\<close>
  matches the path \<open>a/b/c\<close>, though it is no segment of the path, is not its base
  name and is no glob.
\<close>

theorem matchExclude_stated_counterexample:
  "Clean ''a/b/c'' = ''a/b/c'' \<and> Clean ''b/c'' = ''b/c''
   \<and> matchExclude literalMatch ''a/b/c'' ''b/c''
   \<and> \<not> matchesStated literalMatch ''a/b/c'' ''b/c''"
  by (simp add: matchesStated_def path_ev)

text \<open>
  Claim C7 (when \<open>ProcessFile\<close> writes). Let the read of the file succeed with
  \<open>content\<close>. \<open>ProcessFile\<close> asks the system for a change exactly when \<open>dryRun\<close> is
  false and \<open>FindEmojis content\<close> is not empty. With no emoji found the state of
  the system is unchanged whatever \<open>dryRun\<close> is; with \<open>dryRun\<close> true it is unchanged
  even when emojis were found. Otherwise the calls are \<open>WriteFile\<close> of the cleaned
  bytes with mode 0600 and, once that has succeeded, \<open>Chmod\<close> to 0600; when
  \<open>ProcessFile\<close> returns no error the file holds the cleaned bytes and its
  permission is 0600, whatever it was before. No other file changes.
\<close>

theorem ProcessFile_writes:
  assumes "os_ReadFile st filePath = Inr content"
  shows "(calls (snd (ProcessFile fp filePath dryRun st)) \<noteq> calls st)
           = (\<not> dryRun \<and> FindEmojis (Detector fp) content \<noteq> [])
       \<and> (FindEmojis (Detector fp) content = [] \<longrightarrow> snd (ProcessFile fp filePath dryRun st) = st)
       \<and> (dryRun \<longrightarrow> snd (ProcessFile fp filePath dryRun st) = st)
       \<and> (\<not> dryRun \<and> FindEmojis (Detector fp) content \<noteq> [] \<longrightarrow>
            calls (snd (ProcessFile fp filePath dryRun st))
              = calls st @ SysWriteFile filePath (RemoveEmojis (Detector fp) content) mode0600
                  # (if writeFails st filePath then [] else [SysChmod filePath mode0600]))
       \<and> (\<not> dryRun \<and> FindEmojis (Detector fp) content \<noteq> []
            \<and> snd (fst (ProcessFile fp filePath dryRun st)) = None \<longrightarrow>
            map_option contents (files (snd (ProcessFile fp filePath dryRun st)) filePath)
              = Some (RemoveEmojis (Detector fp) content)
            \<and> map_option perm (files (snd (ProcessFile fp filePath dryRun st)) filePath)
              = Some mode0600)
       \<and> (\<forall>other. other \<noteq> filePath \<longrightarrow>
            files (snd (ProcessFile fp filePath dryRun st)) other = files st other)"
proof -
  from assms obtain f where f: "files st filePath = Some f"
    by (auto simp: os_ReadFile_def split: option.splits)
  show ?thesis
  proof (cases "FindEmojis (Detector fp) content = [] \<or> dryRun")
    case True
    then have "snd (ProcessFile fp filePath dryRun st) = st"
      using assms by (auto simp: ProcessFile_def Let_def)
    with True show ?thesis by auto
  next
    case False
    then show ?thesis
      using assms f
      by (simp add: ProcessFile_def os_WriteFile_def os_Chmod_def Let_def split: prod.splits)
  qed
qed

text \<open>
  The file \<open>a.txt\<close> holds \<open>"Hi "\<close> and U+1F60A with mode 0644 (420): without
  \<open>dryRun\<close> the calls are the write of \<open>"Hi "\<close> and the change of mode; with
  \<open>dryRun\<close> the state is as before.
\<close>

theorem ProcessFile_writes_witness:
  "os_ReadFile
     \<lparr>files = [''a.txt'' \<mapsto> \<lparr>contents = [0x48, 0x69, 0x20, 0xF0, 0x9F, 0x98, 0x8A],
                               perm = 420, isRegular = True\<rparr>],
      readFails = neverFails, writeFails = neverFails, chmodFails = neverFails, calls = []\<rparr>
     ''a.txt'' = Inr [0x48, 0x69, 0x20, 0xF0, 0x9F, 0x98, 0x8A]
   \<and> calls (snd (ProcessFile NewFileProcessor ''a.txt'' False
        \<lparr>files = [''a.txt'' \<mapsto> \<lparr>contents = [0x48, 0x69, 0x20, 0xF0, 0x9F, 0x98, 0x8A],
                                  perm = 420, isRegular = True\<rparr>],
         readFails = neverFails, writeFails = neverFails, chmodFails = neverFails,
         calls = []\<rparr>))
       = [SysWriteFile ''a.txt'' [0x48, 0x69, 0x20] mode0600, SysChmod ''a.txt'' mode0600]
   \<and> snd (ProcessFile NewFileProcessor ''a.txt'' True
        \<lparr>files = [''a.txt'' \<mapsto> \<lparr>contents = [0x48, 0x69, 0x20, 0xF0, 0x9F, 0x98, 0x8A],
                                  perm = 420, isRegular = True\<rparr>],
         readFails = neverFails, writeFails = neverFails, chmodFails = neverFails,
         calls = []\<rparr>)
       = \<lparr>files = [''a.txt'' \<mapsto> \<lparr>contents = [0x48, 0x69, 0x20, 0xF0, 0x9F, 0x98, 0x8A],
                                  perm = 420, isRegular = True\<rparr>],
          readFails = neverFails, writeFails = neverFails, chmodFails = neverFails,
          calls = []\<rparr>"
proof -
  let ?st = "\<lparr>files = [''a.txt'' \<mapsto> \<lparr>contents = [0x48, 0x69, 0x20, 0xF0, 0x9F, 0x98, 0x8A],
                               perm = 420, isRegular = True\<rparr>],
      readFails = neverFails, writeFails = neverFails, chmodFails = neverFails, calls = []\<rparr>"
  have h: "os_ReadFile ?st ''a.txt'' = Inr [0x48, 0x69, 0x20, 0xF0, 0x9F, 0x98, 0x8A]"
    by (simp add: os_ReadFile_def neverFails_def)
  have e: "FindEmojis (Detector NewFileProcessor) [0x48, 0x69, 0x20, 0xF0, 0x9F, 0x98, 0x8A] \<noteq> []"
    by (simp add: NewFileProcessor_def utf8_ev det_ev)
  have r: "RemoveEmojis (Detector NewFileProcessor) [0x48, 0x69, 0x20, 0xF0, 0x9F, 0x98, 0x8A]
      = [0x48, 0x69, 0x20]"
    by (simp add: NewFileProcessor_def utf8_ev det_ev)
  have w: "\<not> writeFails ?st ''a.txt''" by (simp add: neverFails_def)
  from ProcessFile_writes [OF h, where fp = NewFileProcessor and dryRun = False] e r w
  have c: "calls (snd (ProcessFile NewFileProcessor ''a.txt'' False ?st))
      = [SysWriteFile ''a.txt'' [0x48, 0x69, 0x20] mode0600, SysChmod ''a.txt'' mode0600]"
    by simp
  from ProcessFile_writes [OF h, where fp = NewFileProcessor and dryRun = True]
  have p: "snd (ProcessFile NewFileProcessor ''a.txt'' True ?st) = ?st" by simp
  from h c p show ?thesis by (intro conjI)
qed

text \<open>
  Claim C8 (the invariant of a \<open>ProcessResult\<close>). The result \<open>ProcessFile\<close> returns,
  with or without an error and whatever \<open>dryRun\<close> is, and every result
  \<open>processContentFromStdin\<close> returns satisfy: \<open>Modified\<close> is false exactly when
  \<open>EmojisFound\<close> is empty, and when \<open>EmojisFound\<close> is not empty \<open>NewSize\<close> is the
  byte length of the cleaned text. (When the read fails there is no text, and the
  result has \<open>Modified\<close> false and \<open>EmojisFound\<close> empty.)
\<close>

theorem ProcessResult_invariant:
  "(case os_ReadFile st filePath of
      Inl e \<Rightarrow> Modified (fst (fst (ProcessFile fp filePath dryRun st))) = False
               \<and> EmojisFound (fst (fst (ProcessFile fp filePath dryRun st))) = []
    | Inr content \<Rightarrow>
        resultInvariant content (Detector fp) (fst (fst (ProcessFile fp filePath dryRun st))))
   \<and> list_all
        (resultInvariant (TrimSuffix (concat (map (\<lambda>line. line @ [0x0A]) scanned)) [0x0A])
           (Detector fp))
        (fst (fst (processContentFromStdin fp dryRun scanned scanFails)))"
proof -
  have fromFile: "case os_ReadFile st filePath of
      Inl e \<Rightarrow> Modified (fst (fst (ProcessFile fp filePath dryRun st))) = False
               \<and> EmojisFound (fst (fst (ProcessFile fp filePath dryRun st))) = []
    | Inr content \<Rightarrow>
        resultInvariant content (Detector fp) (fst (fst (ProcessFile fp filePath dryRun st)))"
  proof (cases "os_ReadFile st filePath")
    case (Inl e)
    then show ?thesis by (simp add: ProcessFile_def)
  next
    case (Inr content)
    then show ?thesis
      by (simp add: ProcessFile_def resultInvariant_def Let_def split: prod.splits option.splits)
  qed
  have piped: "list_all
        (resultInvariant (TrimSuffix (concat (map (\<lambda>line. line @ [0x0A]) scanned)) [0x0A])
           (Detector fp))
        (fst (fst (processContentFromStdin fp dryRun scanned scanFails)))"
    by (simp add: processContentFromStdin_def resultInvariant_def Let_def)
  from fromFile piped show ?thesis by (rule conjI)
qed

theorem ProcessResult_invariant_witness:
  "fst (fst (ProcessFile NewFileProcessor ''a.txt'' True
        \<lparr>files = [''a.txt'' \<mapsto> \<lparr>contents = [0x48, 0x69, 0x20, 0xF0, 0x9F, 0x98, 0x8A],
                                  perm = 420, isRegular = True\<rparr>],
         readFails = neverFails, writeFails = neverFails, chmodFails = neverFails,
         calls = []\<rparr>))
     = \<lparr>FilePath = ''a.txt'', EmojisFound = [[0xF0, 0x9F, 0x98, 0x8A]], OriginalSize = 7,
        NewSize = 3, Modified = True\<rparr>
   \<and> resultInvariant [0x48, 0x69, 0x20, 0xF0, 0x9F, 0x98, 0x8A] NewDetector
        \<lparr>FilePath = ''a.txt'', EmojisFound = [[0xF0, 0x9F, 0x98, 0x8A]], OriginalSize = 7,
         NewSize = 3, Modified = True\<rparr>"
proof -
  let ?st = "\<lparr>files = [''a.txt'' \<mapsto> \<lparr>contents = [0x48, 0x69, 0x20, 0xF0, 0x9F, 0x98, 0x8A],
                               perm = 420, isRegular = True\<rparr>],
      readFails = neverFails, writeFails = neverFails, chmodFails = neverFails, calls = []\<rparr>"
  have h: "os_ReadFile ?st ''a.txt'' = Inr [0x48, 0x69, 0x20, 0xF0, 0x9F, 0x98, 0x8A]"
    by (simp add: os_ReadFile_def neverFails_def)
  have v: "fst (fst (ProcessFile NewFileProcessor ''a.txt'' True ?st))
     = \<lparr>FilePath = ''a.txt'', EmojisFound = [[0xF0, 0x9F, 0x98, 0x8A]], OriginalSize = 7,
        NewSize = 3, Modified = True\<rparr>"
    by (simp add: utf8_ev det_ev proc_ev)
  from ProcessResult_invariant [where st = ?st and filePath = "''a.txt''"
      and fp = NewFileProcessor and dryRun = True and scanned = "[]" and scanFails = False]
  have "resultInvariant [0x48, 0x69, 0x20, 0xF0, 0x9F, 0x98, 0x8A] (Detector NewFileProcessor)
      (fst (fst (ProcessFile NewFileProcessor ''a.txt'' True ?st)))"
    by (simp add: h)
  then have "resultInvariant [0x48, 0x69, 0x20, 0xF0, 0x9F, 0x98, 0x8A] NewDetector
        \<lparr>FilePath = ''a.txt'', EmojisFound = [[0xF0, 0x9F, 0x98, 0x8A]], OriginalSize = 7,
         NewSize = 3, Modified = True\<rparr>"
    unfolding v by (simp add: NewFileProcessor_def)
  with v show ?thesis by (intro conjI)
qed

text \<open>
  Claim C10 (a failed read). If reading the file fails, \<open>ProcessFile\<close> returns the
  error, wrapped, with a result in which only \<open>FilePath\<close> is set, and the state of the
  system, the log of calls included, is the one before the call: nothing was written
  and no mode was changed.
\<close>

theorem ProcessFile_read_error:
  assumes "os_ReadFile st filePath = Inl e"
  shows "ProcessFile fp filePath dryRun st
    = ((\<lparr>FilePath = filePath, EmojisFound = [], OriginalSize = 0, NewSize = 0,
         Modified = False\<rparr>, Some (Wrapped ''failed to read file'' e)), st)"
proof -
  have "ProcessFile fp filePath dryRun st
      = (case os_ReadFile st filePath of
           Inl err \<Rightarrow>
             ((\<lparr>FilePath = filePath, EmojisFound = [], OriginalSize = 0, NewSize = 0,
                Modified = False\<rparr>, Some (Wrapped ''failed to read file'' err)), st)
         | Inr content \<Rightarrow> ProcessFile fp filePath dryRun st)"
    by (simp add: ProcessFile_def split: sum.splits)
  then show ?thesis by (simp add: assms)
qed

theorem ProcessFile_read_error_witness:
  "os_ReadFile \<lparr>files = Map.empty, readFails = neverFails, writeFails = neverFails,
       chmodFails = neverFails, calls = []\<rparr> ''missing.txt'' = Inl (OSError ''missing.txt'')
   \<and> ProcessFile NewFileProcessor ''missing.txt'' False
       \<lparr>files = Map.empty, readFails = neverFails, writeFails = neverFails,
        chmodFails = neverFails, calls = []\<rparr>
     = ((\<lparr>FilePath = ''missing.txt'', EmojisFound = [], OriginalSize = 0, NewSize = 0,
          Modified = False\<rparr>, Some (Wrapped ''failed to read file'' (OSError ''missing.txt''))),
        \<lparr>files = Map.empty, readFails = neverFails, writeFails = neverFails,
         chmodFails = neverFails, calls = []\<rparr>)"
proof -
  have h: "os_ReadFile \<lparr>files = Map.empty, readFails = neverFails, writeFails = neverFails,
       chmodFails = neverFails, calls = []\<rparr> ''missing.txt'' = Inl (OSError ''missing.txt'')"
    by (simp add: os_ReadFile_def)
  show ?thesis by (rule conjI [OF h ProcessFile_read_error [OF h]])
qed

end
